theory Spec2Isabelle
  imports Complex_Main "HOL-Library.Sublist"
begin

section \<open>Strings and character classes of the host language\<close>

text \<open>
  The functions under study are TypeScript functions over strings. A string of the model is
  a list of code units below 256 (type \<open>char\<close>): this covers every character the code tests
  for (the backtick, braces, brackets, quotes, the backslash, letters, digits and the white
  space of the class \<open>\s\<close> below U+0100). Code units from U+0100 on are outside the model.
\<close>

text \<open>
  \<open>is_space\<close> is the class \<open>\s\<close>, which is also what \<open>trim\<close> removes: tab, line feed, vertical
  tab, form feed, carriage return, space and no-break space. \<open>is_word\<close> is the class \<open>\w\<close>
  and \<open>is_dot\<close> is \<open>.\<close> without the \<open>s\<close> flag (anything but a line terminator).
\<close>

definition is_space :: "char \<Rightarrow> bool" where
  "is_space c = (of_char c \<in> {9::nat, 10, 11, 12, 13, 32, 160})"

definition is_word :: "char \<Rightarrow> bool" where
  "is_word c = (let n = (of_char c :: nat) in
     (48 \<le> n \<and> n \<le> 57) \<or> (65 \<le> n \<and> n \<le> 90) \<or> (97 \<le> n \<and> n \<le> 122) \<or> n = 95)"

definition is_dot :: "char \<Rightarrow> bool" where
  "is_dot c = (of_char c \<notin> {10::nat, 13})"

text \<open>
  \<open>toLowerCase\<close> on code units below 256: the letters \<open>A\<close> to \<open>Z\<close> and the capitals U+00C0 to
  U+00DE other than the multiplication sign U+00D7 move up by 32. The same function decides
  matching under the \<open>i\<close> flag; for the expressions of this program, whose literals are
  ASCII, it agrees with the canonicalisation the language prescribes (a character matches
  an ASCII letter of the pattern only if it is that letter, in either case).
\<close>

definition lower_char :: "char \<Rightarrow> char" where
  "lower_char c = (let n = (of_char c :: nat) in
     if (65 \<le> n \<and> n \<le> 90) \<or> (192 \<le> n \<and> n \<le> 222 \<and> n \<noteq> 215) then char_of (n + 32) else c)"

definition toLowerCase :: "string \<Rightarrow> string" where
  "toLowerCase s = map lower_char s"

text \<open>\<open>slice w i j\<close> is \<open>w.substring(i, j)\<close> for \<open>i \<le> j\<close>.\<close>

definition slice :: "string \<Rightarrow> nat \<Rightarrow> nat \<Rightarrow> string" where
  "slice w i j = take (j - i) (drop i w)"

text \<open>
  Regular expressions, with the constructs the literals of the program use: a character
  class, a literal, a literal under the \<open>i\<close> flag, \<open>^\<close>, \<open>$\<close>, the word boundary \<open>\b\<close>,
  concatenation, the greedy star, the lazy star, a capture group and a positive lookahead.
\<close>

datatype re =
    Sym "char \<Rightarrow> bool"
  | Lit string
  | LitCI string
  | Bol
  | Eol
  | WordB
  | Seq re re
  | Star re
  | Lazy re
  | Grp re
  | Ahead re

text \<open>
  \<open>rmatch r w i\<close> is the backtracking matcher of the language, run on \<open>w\<close> from position
  \<open>i\<close>: it lists the ways \<open>r\<close> matches there, each with the texts of its capture groups and
  its end position, in the order backtracking tries them. The head of the list is the match
  that is reported. The greedy star tries one more iteration before stopping and the lazy
  star stops before trying one more; an iteration that consumes nothing is rejected, as the
  language prescribes. No capture group of the program lies under a star or a lookahead, so
  these report no captures.
\<close>

definition word_at :: "string \<Rightarrow> nat \<Rightarrow> bool" where
  "word_at w i = (i < length w \<and> is_word (w ! i))"

function rmatch :: "re \<Rightarrow> string \<Rightarrow> nat \<Rightarrow> (string list \<times> nat) list" where
  "rmatch (Sym P) w i = (if i < length w \<and> P (w ! i) then [([], Suc i)] else [])"
| "rmatch (Lit s) w i = (if slice w i (i + length s) = s then [([], i + length s)] else [])"
| "rmatch (LitCI s) w i =
     (if toLowerCase (slice w i (i + length s)) = toLowerCase s then [([], i + length s)] else [])"
| "rmatch Bol w i = (if i = 0 then [([], i)] else [])"
| "rmatch Eol w i = (if i = length w then [([], i)] else [])"
| "rmatch WordB w i = (if (0 < i \<and> word_at w (i - 1)) \<noteq> word_at w i then [([], i)] else [])"
| "rmatch (Seq a b) w i =
     concat (map (\<lambda>(c1, j). map (\<lambda>(c2, k). (c1 @ c2, k)) (rmatch b w j)) (rmatch a w i))"
| "rmatch (Star a) w i =
     concat (map (\<lambda>(c1, j). if i < j \<and> j \<le> length w then rmatch (Star a) w j else [])
                 (rmatch a w i)) @ [([], i)]"
| "rmatch (Lazy a) w i =
     ([], i) # concat (map (\<lambda>(c1, j). if i < j \<and> j \<le> length w then rmatch (Lazy a) w j else [])
                          (rmatch a w i))"
| "rmatch (Grp a) w i = map (\<lambda>(c, j). (slice w i j # c, j)) (rmatch a w i)"
| "rmatch (Ahead a) w i = (if rmatch a w i = [] then [] else [([], i)])"
  by pat_completeness auto
termination
  by (relation "measures [\<lambda>(r, w, i). size r, \<lambda>(r, w, i). length w - i]") auto

section \<open>Searching and replacing with a regular expression\<close>

text \<open>
  \<open>search r w i\<close> is one execution of \<open>r\<close> on \<open>w\<close> with \<open>lastIndex = i\<close>: the first position
  from \<open>i\<close> on at which \<open>r\<close> matches, with the captures and the end of the match reported
  there; \<open>None\<close> when no position up to the end of \<open>w\<close> matches.
\<close>

function search :: "re \<Rightarrow> string \<Rightarrow> nat \<Rightarrow> (nat \<times> string list \<times> nat) option" where
  "search r w i =
     (if length w < i then None
      else case rmatch r w i of
             [] \<Rightarrow> search r w (Suc i)
           | (c, j) # _ \<Rightarrow> Some (i, c, j))"
  by pat_completeness auto
termination
  by (relation "measure (\<lambda>(r, w, i). Suc (length w) - i)") auto

declare search.simps [simp del]

text \<open>
  \<open>replace_first r rep w\<close> is \<open>w.replace(r, rep)\<close> for an expression without the \<open>g\<close> flag.
  The replacement texts of the program hold no \<open>$\<close>, so they are inserted as they are.
\<close>

definition replace_first :: "re \<Rightarrow> string \<Rightarrow> string \<Rightarrow> string" where
  "replace_first r rep w =
     (case search r w 0 of
        None \<Rightarrow> w
      | Some (p, c, e) \<Rightarrow> take p w @ rep @ drop e w)"

text \<open>
  \<open>trim\<close>, \<open>indexOf\<close> and \<open>lastIndexOf\<close> of the language; the index \<open>-1\<close> is \<open>None\<close>.
\<close>

definition trim :: "string \<Rightarrow> string" where
  "trim s = rev (dropWhile is_space (rev (dropWhile is_space s)))"

definition indexOf :: "char \<Rightarrow> string \<Rightarrow> nat option" where
  "indexOf c s = (if c \<in> set s then Some (length (takeWhile (\<lambda>x. x \<noteq> c) s)) else None)"

definition lastIndexOf :: "char \<Rightarrow> string \<Rightarrow> nat option" where
  "lastIndexOf c s =
     (if c \<in> set s then Some (length s - Suc (length (takeWhile (\<lambda>x. x \<noteq> c) (rev s)))) else None)"

text \<open>
  All matches of an expression with the \<open>g\<close> flag, as \<open>replace\<close> and \<open>match\<close> collect them:
  \<open>lastIndex\<close> starts at 0, each execution reports the first match from \<open>lastIndex\<close> on, and
  \<open>lastIndex\<close> then moves to the end of that match, or one past it when the match is empty.
  \<open>scan\<close> walks through the positions \<open>0, \<dots>, length w\<close> in order, skipping those before
  \<open>lastIndex\<close>.
\<close>

fun scan :: "re \<Rightarrow> string \<Rightarrow> nat \<Rightarrow> nat list \<Rightarrow> (nat \<times> string list \<times> nat) list" where
  "scan r w lastIndex [] = []"
| "scan r w lastIndex (i # positions) =
     (if i < lastIndex then scan r w lastIndex positions
      else case rmatch r w i of
             [] \<Rightarrow> scan r w lastIndex positions
           | (c, e) # _ \<Rightarrow> (i, c, e) # scan r w (if i < e then e else Suc i) positions)"

definition exec_all :: "re \<Rightarrow> string \<Rightarrow> (nat \<times> string list \<times> nat) list" where
  "exec_all r w = scan r w 0 [0 ..< Suc (length w)]"

text \<open>
  \<open>replace_fn r f w\<close> is \<open>w.replace(r, f)\<close> for an expression with the \<open>g\<close> flag and a callback
  \<open>f\<close>, which receives the matched text and the captures; \<open>replace_all r rep w\<close> is the same
  with a replacement text. \<open>match_all r w\<close> is \<open>w.match(r)\<close> for an expression with the \<open>g\<close>
  flag: the matched texts, or \<open>null\<close> (\<open>None\<close>) when there is none.
\<close>

fun stitch :: "string \<Rightarrow> (string \<Rightarrow> string list \<Rightarrow> string) \<Rightarrow> nat \<Rightarrow> (nat \<times> string list \<times> nat) list \<Rightarrow> string" where
  "stitch w f k [] = drop k w"
| "stitch w f k ((p, c, e) # ms) = slice w k p @ f (slice w p e) c @ stitch w f e ms"

definition replace_fn :: "re \<Rightarrow> (string \<Rightarrow> string list \<Rightarrow> string) \<Rightarrow> string \<Rightarrow> string" where
  "replace_fn r f w = stitch w f 0 (exec_all r w)"

definition replace_all :: "re \<Rightarrow> string \<Rightarrow> string \<Rightarrow> string" where
  "replace_all r rep w = replace_fn r (\<lambda>_ _. rep) w"

definition match_all :: "re \<Rightarrow> string \<Rightarrow> string list option" where
  "match_all r w =
     (case exec_all r w of
        [] \<Rightarrow> None
      | ms \<Rightarrow> Some (map (\<lambda>(p, c, e). slice w p e) ms))"

text \<open>\<open>cat\<close> concatenates a non-empty list of expressions.\<close>

definition cat :: "re list \<Rightarrow> re" where
  "cat rs = foldr Seq (butlast rs) (last rs)"

definition word_or_space :: "char \<Rightarrow> bool" where
  "word_or_space c = (is_word c \<or> is_space c)"

text \<open>
  The expressions of the two \<open>cleanJsonResponse\<close> functions:
  \<^item> \<open>re_fence_json\<close> is \<open>/^```json\s*/i\<close> and \<open>re_fence_open\<close> is \<open>/^```\s*/i\<close>, in both;
  \<^item> \<open>re_fence_close\<close> is \<open>/\s*```\s*$/i\<close>, of the shared function in aiUtils;
  \<^item> \<open>re_fence_close_strict\<close> is \<open>/\s*```$/i\<close>, of the function in campaignAssistantAI;
  \<^item> \<open>re_text_before\<close> is \<open>/^\s*[\w\s]*?(?=\{)/g\<close> and \<open>re_text_after\<close> is \<open>/\}\s*[\w\s]*$/g\<close>,
    of the shared function.
\<close>

definition re_fence_json :: re where
  "re_fence_json = cat [Bol, LitCI ''```json'', Star (Sym is_space)]"

definition re_fence_open :: re where
  "re_fence_open = cat [Bol, LitCI ''```'', Star (Sym is_space)]"

definition re_fence_close :: re where
  "re_fence_close = cat [Star (Sym is_space), LitCI ''```'', Star (Sym is_space), Eol]"

definition re_fence_close_strict :: re where
  "re_fence_close_strict = cat [Star (Sym is_space), LitCI ''```'', Eol]"

definition re_text_before :: re where
  "re_text_before = cat [Bol, Star (Sym is_space), Lazy (Sym word_or_space), Ahead (Lit ''{'')]"

definition re_text_after :: re where
  "re_text_after = cat [Lit ''}'', Star (Sym is_space), Star (Sym word_or_space), Eol]"

text \<open>
  The shared \<open>cleanJsonResponse\<close> of aiUtils. The guard
  \<open>!response || typeof response !== 'string'\<close> returns the empty string as it is. Then three
  replacements remove an opening \<open>```json\<close>, an opening \<open>```\<close> and a closing \<open>```\<close>, and the
  text is trimmed; if \<open>jsonStart !== -1 && jsonEnd !== -1 && jsonStart <= jsonEnd\<close> it is cut
  to \<open>substring(jsonStart, jsonEnd + 1)\<close>; last come the two global replacements and a
  second \<open>trim\<close>.
\<close>

definition cleanJsonResponse :: "string \<Rightarrow> string" where
  "cleanJsonResponse response =
     (if response = [] then response
      else
        let cleaned = trim (replace_first re_fence_close []
                         (replace_first re_fence_open []
                           (replace_first re_fence_json [] response)));
            jsonStart = indexOf CHR ''{'' cleaned;
            jsonEnd = lastIndexOf CHR ''}'' cleaned;
            cleaned = (case (jsonStart, jsonEnd) of
                         (Some a, Some b) \<Rightarrow> if a \<le> b then slice cleaned a (Suc b) else cleaned
                       | _ \<Rightarrow> cleaned)
        in trim (replace_all re_text_after ''}'' (replace_all re_text_before [] cleaned)))"

text \<open>
  The \<open>cleanJsonResponse\<close> of campaignAssistantAI, a function private to that file: three
  replacements and \<open>trim\<close>, with no guard and no cut.
\<close>

definition cleanJsonResponse_campaign :: "string \<Rightarrow> string" where
  "cleanJsonResponse_campaign response =
     trim (replace_first re_fence_close_strict []
            (replace_first re_fence_open []
              (replace_first re_fence_json [] response)))"

section \<open>Values of the host language and errors\<close>

text \<open>
  \<open>jsval\<close> holds the values \<open>JSON.parse\<close> can return, and \<open>undefined\<close>. Numbers are rationals
  (the program only tests them for being zero and builds small integers); an object is the
  list of its own properties, the first binding of a name being the one that is read.
  \<open>error\<close> holds the values the code throws or the platform throws on its behalf, each with
  its message.
\<close>

datatype jsval =
    JUndef
  | JNull
  | JBool bool
  | JNum rat
  | JStr string
  | JArr "jsval list"
  | JObj "(string \<times> jsval) list"

datatype error = Error string | TypeError string | SyntaxError string

fun message :: "error \<Rightarrow> string" where
  "message (Error m) = m"
| "message (TypeError m) = m"
| "message (SyntaxError m) = m"

text \<open>
  \<open>get_prop v k\<close> is the property read \<open>v.k\<close>: a \<open>TypeError\<close> on \<open>undefined\<close> and \<open>null\<close>, the
  own property of an object, and \<open>undefined\<close> otherwise (none of the names the program
  reads is an inherited property of an object, an array or a primitive value).
\<close>

fun get_prop :: "jsval \<Rightarrow> string \<Rightarrow> error + jsval" where
  "get_prop JUndef k = Inl (TypeError (''Cannot read properties of undefined (reading '' @ k @ '')''))"
| "get_prop JNull k = Inl (TypeError (''Cannot read properties of null (reading '' @ k @ '')''))"
| "get_prop (JObj kvs) k = Inr (case map_of kvs k of None \<Rightarrow> JUndef | Some v \<Rightarrow> v)"
| "get_prop _ k = Inr JUndef"

text \<open>
  \<open>truthy\<close> is the conversion to a boolean, \<open>or_else v d\<close> is \<open>v || d\<close>, \<open>is_string v\<close> is
  \<open>typeof v === 'string'\<close>, \<open>string_or v d\<close> is \<open>typeof v === 'string' ? v : d\<close>, and
  \<open>string_or_undefined v\<close> is the same with \<open>undefined\<close> for \<open>d\<close>. \<open>strings_of\<close> is
  \<open>filter(req => typeof req === 'string')\<close>.
\<close>

fun truthy :: "jsval \<Rightarrow> bool" where
  "truthy JUndef = False"
| "truthy JNull = False"
| "truthy (JBool b) = b"
| "truthy (JNum n) = (n \<noteq> 0)"
| "truthy (JStr s) = (s \<noteq> [])"
| "truthy (JArr _) = True"
| "truthy (JObj _) = True"

definition or_else :: "jsval \<Rightarrow> jsval \<Rightarrow> jsval" where
  "or_else v d = (if truthy v then v else d)"

fun is_string :: "jsval \<Rightarrow> bool" where
  "is_string (JStr _) = True"
| "is_string _ = False"

fun string_or :: "jsval \<Rightarrow> string \<Rightarrow> string" where
  "string_or (JStr s) d = s"
| "string_or _ d = d"

fun string_or_undefined :: "jsval \<Rightarrow> string option" where
  "string_or_undefined (JStr s) = Some s"
| "string_or_undefined _ = None"

fun strings_of :: "jsval list \<Rightarrow> string list" where
  "strings_of [] = []"
| "strings_of (JStr s # vs) = s # strings_of vs"
| "strings_of (_ # vs) = strings_of vs"

text \<open>
  \<open>sequence\<close> runs through the results of a callback that may throw, as \<open>Array.map\<close> does:
  the first error ends the run. \<open>show_nat\<close> is the decimal text of a number, as a template
  literal inserts it.
\<close>

fun sequence :: "(error + 'a) list \<Rightarrow> error + 'a list" where
  "sequence [] = Inr []"
| "sequence (Inl e # _) = Inl e"
| "sequence (Inr x # xs) = (case sequence xs of Inl e \<Rightarrow> Inl e | Inr ys \<Rightarrow> Inr (x # ys))"

definition digit :: "nat \<Rightarrow> char" where
  "digit n = char_of (48 + n)"

fun show_nat :: "nat \<Rightarrow> string" where
  "show_nat n = (if n < 10 then [digit n] else show_nat (n div 10) @ [digit (n mod 10)])"

declare show_nat.simps [simp del]

section \<open>aiUtils: sanitizeJsonString and parseJsonSafely\<close>

text \<open>
  \<open>sanitizeJsonString\<close> is a chain of seven global replacements, applied in this order:
  \<open>/\\/g\<close>, \<open>/"/g\<close>, \<open>/\n/g\<close>, \<open>/\r/g\<close>, \<open>/\t/g\<close>, \<open>/\f/g\<close> and \<open>/\b/g\<close>. Each inserts a
  backslash followed by the character named in its comment. In a regular expression,
  outside a character class, \<open>\b\<close> is the word boundary (\<open>WordB\<close>). The guard
  \<open>typeof str !== 'string'\<close> is false of every string.
\<close>

definition bslash :: string where
  "bslash = [CHR 0x5C]"

definition dquote :: string where
  "dquote = [CHR 0x22]"

definition sanitizeJsonString :: "string \<Rightarrow> string" where
  "sanitizeJsonString str =
     replace_all WordB (bslash @ ''b'')
      (replace_all (Lit [CHR 0x0C]) (bslash @ ''f'')
        (replace_all (Lit [CHR 0x09]) (bslash @ ''t'')
          (replace_all (Lit [CHR 0x0D]) (bslash @ ''r'')
            (replace_all (Lit [CHR 0x0A]) (bslash @ ''n'')
              (replace_all (Lit dquote) (bslash @ dquote)
                (replace_all (Lit bslash) (bslash @ bslash) str))))))"

text \<open>
  The expressions of \<open>parseJsonSafely\<close>:
  \<^item> \<open>re_quoted_body\<close> is \<open>[^"]*(?:\\.[^"]*)*\<close> and \<open>re_quoted\<close> is \<open>/"([^"]*(?:\\.[^"]*)*)"/g\<close>;
  \<^item> \<open>re_string_value\<close> is \<open>/"([^"]*)":\s*"([^"]*(?:\\.[^"]*)*)"/g\<close>;
  \<^item> \<open>re_array_value\<close> is \<open>/"([^"]*)":\s*\[([^\]]*)\]/g\<close>.
\<close>

definition not_quote :: "char \<Rightarrow> bool" where
  "not_quote c = (c \<noteq> CHR 0x22)"

definition not_bracket :: "char \<Rightarrow> bool" where
  "not_bracket c = (c \<noteq> CHR '']'')"

definition any_char :: "char \<Rightarrow> bool" where
  "any_char c = True"

definition re_quoted_body :: re where
  "re_quoted_body =
     Seq (Star (Sym not_quote))
         (Star (cat [Lit bslash, Sym is_dot, Star (Sym not_quote)]))"

definition re_quoted :: re where
  "re_quoted = cat [Lit dquote, Grp re_quoted_body, Lit dquote]"

definition re_string_value :: re where
  "re_string_value =
     cat [Lit dquote, Grp (Star (Sym not_quote)), Lit (dquote @ '':''), Star (Sym is_space),
          Lit dquote, Grp re_quoted_body, Lit dquote]"

definition re_array_value :: re where
  "re_array_value =
     cat [Lit dquote, Grp (Star (Sym not_quote)), Lit (dquote @ '':''), Star (Sym is_space),
          Lit ''['', Grp (Star (Sym not_bracket)), Lit '']'']"

text \<open>
  The callbacks of the second attempt. \<open>unescape_quotes v\<close> is \<open>v.replace(/\\"/g, '"')\<close> and
  \<open>requote v\<close> is that followed by \<open>.replace(/"/g, '\\"')\<close>. Each callback receives the matched
  text and the captures; its expression has as many groups as the callback names, so the
  last case, which returns the matched text, is never reached.
\<close>

definition unescape_quotes :: "string \<Rightarrow> string" where
  "unescape_quotes v = replace_all (Lit (bslash @ dquote)) dquote v"

definition requote :: "string \<Rightarrow> string" where
  "requote v = replace_all (Lit dquote) (bslash @ dquote) (unescape_quotes v)"

definition fix_string_value :: "string \<Rightarrow> string list \<Rightarrow> string" where
  "fix_string_value m caps =
     (case caps of
        key # value # _ \<Rightarrow> dquote @ key @ dquote @ '': '' @ dquote @ requote value @ dquote
      | _ \<Rightarrow> m)"

definition fix_array_item :: "string \<Rightarrow> string list \<Rightarrow> string" where
  "fix_array_item m caps =
     (case caps of
        itemValue # _ \<Rightarrow> dquote @ requote itemValue @ dquote
      | _ \<Rightarrow> m)"

definition fix_array_value :: "string \<Rightarrow> string list \<Rightarrow> string" where
  "fix_array_value m caps =
     (case caps of
        key # arrayContent # _ \<Rightarrow>
          dquote @ key @ dquote @ '': ['' @ replace_fn re_quoted fix_array_item arrayContent @ '']''
      | _ \<Rightarrow> m)"

definition fixedJson :: "string \<Rightarrow> string" where
  "fixedJson jsonString =
     replace_fn re_array_value fix_array_value
       (replace_fn re_string_value fix_string_value jsonString)"

text \<open>
  The third attempt. \<open>re_field fieldName\<close> is the expression built by
  \<open>new RegExp(`"${fieldName}":\\s*"([^"]*(?:\\\\.[^"]*)*)"`, 'i')\<close> and \<open>re_array_field fieldName\<close>
  the one built by \<open>new RegExp(`"${fieldName}":\\s*\\[(.*?)\\]`, 'is')\<close>; the field names
  passed are plain words, which stand for themselves in an expression. \<open>group1\<close> is the read
  \<open>match[1]\<close> followed by a method call, which throws a \<open>TypeError\<close> if the match has no
  first group. \<open>extractField\<close> and \<open>extractArray\<close> are the two local functions, with
  \<open>jsonString\<close> as a parameter; \<open>item.slice(1, -1)\<close> is \<open>butlast (tl item)\<close>.
\<close>

definition re_field :: "string \<Rightarrow> re" where
  "re_field fieldName =
     cat [LitCI (dquote @ fieldName @ dquote @ '':''), Star (Sym is_space),
          Lit dquote, Grp re_quoted_body, Lit dquote]"

definition re_array_field :: "string \<Rightarrow> re" where
  "re_array_field fieldName =
     cat [LitCI (dquote @ fieldName @ dquote @ '':''), Star (Sym is_space),
          Lit ''['', Grp (Lazy (Sym any_char)), Lit '']'']"

definition group1 :: "string list \<Rightarrow> error + string" where
  "group1 caps =
     (case caps of
        [] \<Rightarrow> Inl (TypeError ''Cannot read properties of undefined (reading replace)'')
      | g # _ \<Rightarrow> Inr g)"

definition extractField :: "string \<Rightarrow> string \<Rightarrow> jsval \<Rightarrow> error + jsval" where
  "extractField jsonString fieldName defaultValue =
     (case search (re_field fieldName) jsonString 0 of
        None \<Rightarrow> Inr defaultValue
      | Some (p, caps, e) \<Rightarrow>
          (case group1 caps of
             Inl err \<Rightarrow> Inl err
           | Inr g \<Rightarrow> Inr (JStr (unescape_quotes g))))"

definition extractArray :: "string \<Rightarrow> string \<Rightarrow> jsval \<Rightarrow> error + jsval" where
  "extractArray jsonString fieldName defaultValue =
     (case search (re_array_field fieldName) jsonString 0 of
        None \<Rightarrow> Inr defaultValue
      | Some (p, caps, e) \<Rightarrow>
          (case group1 caps of
             Inl err \<Rightarrow> Inl err
           | Inr arrayContent \<Rightarrow>
               (case match_all re_quoted arrayContent of
                  None \<Rightarrow> Inr defaultValue
                | Some items \<Rightarrow>
                    Inr (JArr (map (\<lambda>item. JStr (unescape_quotes (butlast (tl item)))) items)))))"

text \<open>
  The thirteen assignments to \<open>result\<close>, in the order of the code, with their defaults. An
  error thrown by one of them ends the attempt.
\<close>

datatype field_kind = Field | ArrayField

definition common_fields :: "(string \<times> field_kind \<times> jsval) list" where
  "common_fields =
     [(''score'', Field, JNum 0),
      (''reasons'', ArrayField, JArr []),
      (''category'', Field, JStr ''potential''),
      (''title'', Field, JStr []),
      (''description'', Field, JStr []),
      (''requirements'', ArrayField, JArr []),
      (''location'', Field, JStr []),
      (''name'', Field, JStr []),
      (''industry'', Field, JStr []),
      (''size'', Field, JStr []),
      (''values'', ArrayField, JArr []),
      (''benefits'', ArrayField, JArr []),
      (''cultureKeywords'', ArrayField, JArr [])]"

fun extract_common :: "string \<Rightarrow> string \<times> field_kind \<times> jsval \<Rightarrow> error + (string \<times> jsval)" where
  "extract_common jsonString (fieldName, kind, defaultValue) =
     (case (case kind of
              Field \<Rightarrow> extractField jsonString fieldName defaultValue
            | ArrayField \<Rightarrow> extractArray jsonString fieldName defaultValue) of
        Inl err \<Rightarrow> Inl err
      | Inr v \<Rightarrow> Inr (fieldName, v))"

definition manual_reconstruction :: "string \<Rightarrow> error + jsval" where
  "manual_reconstruction jsonString =
     (case sequence (map (extract_common jsonString) common_fields) of
        Inl err \<Rightarrow> Inl err
      | Inr kvs \<Rightarrow> Inr (JObj kvs))"

text \<open>
  \<open>parseJsonSafely\<close>, with the platform's \<open>JSON.parse\<close> as a parameter: the direct parse; if
  it throws, the parse of the repaired text; if that throws, the manual reconstruction; if
  that throws, the error \<open>Failed to parse JSON after multiple attempts\<close> with the message of
  the first error.
\<close>

definition parseJsonSafely :: "(string \<Rightarrow> error + jsval) \<Rightarrow> string \<Rightarrow> error + jsval" where
  "parseJsonSafely JSON_parse jsonString =
     (case JSON_parse jsonString of
        Inr v \<Rightarrow> Inr v
      | Inl firstError \<Rightarrow>
          (case JSON_parse (fixedJson jsonString) of
             Inr v \<Rightarrow> Inr v
           | Inl secondError \<Rightarrow>
               (case manual_reconstruction jsonString of
                  Inr v \<Rightarrow> Inr v
                | Inl thirdError \<Rightarrow>
                    Inl (Error (''Failed to parse JSON after multiple attempts: '' @ message firstError)))))"

section \<open>jobExtraction: validateJsonStructure, createFallbackJobData, extractJobFromUrl\<close>

text \<open>
  The interface \<open>ExtractedJobData\<close>; an optional field is an \<open>option\<close>. \<open>and_then\<close> sequences
  two steps of which the first may throw.
\<close>

record ExtractedJobData =
  title :: string
  description :: string
  requirements :: "string list"
  location :: string
  salary_range :: "string option"
  employment_type :: string
  company_name :: "string option"
  reference_number :: "string option"
  shift_timings :: "string option"
  apply_url :: string

definition and_then :: "error + 'a \<Rightarrow> ('a \<Rightarrow> error + 'b) \<Rightarrow> error + 'b" where
  "and_then m f = (case m of Inl e \<Rightarrow> Inl e | Inr x \<Rightarrow> f x)"

text \<open>
  \<open>validateJsonStructure\<close> builds its result field by field, reading the properties of
  \<open>data\<close> in the order of the object literal: \<open>requirements_of\<close> is the
  \<open>Array.isArray(data.requirements) ? \<dots>filter(\<dots>) : ['Professional certification required']\<close>
  and \<open>employment_type_of\<close> is the
  \<open>['full-time', 'part-time', 'contract', 'temporary'].includes(data.employment_type)\<close> test
  with its default.
\<close>

definition employment_types :: "string list" where
  "employment_types = [''full-time'', ''part-time'', ''contract'', ''temporary'']"

fun requirements_of :: "jsval \<Rightarrow> string list" where
  "requirements_of (JArr vs) = strings_of vs"
| "requirements_of _ = [''Professional certification required'']"

fun employment_type_of :: "jsval \<Rightarrow> string" where
  "employment_type_of (JStr s) = (if s \<in> set employment_types then s else ''full-time'')"
| "employment_type_of _ = ''full-time''"

definition validateJsonStructure :: "jsval \<Rightarrow> error + ExtractedJobData" where
  "validateJsonStructure data =
     and_then (get_prop data ''title'') (\<lambda>v_title.
     and_then (get_prop data ''description'') (\<lambda>v_description.
     and_then (get_prop data ''requirements'') (\<lambda>v_requirements.
     and_then (get_prop data ''location'') (\<lambda>v_location.
     and_then (get_prop data ''salary_range'') (\<lambda>v_salary_range.
     and_then (get_prop data ''employment_type'') (\<lambda>v_employment_type.
     and_then (get_prop data ''company_name'') (\<lambda>v_company_name.
     and_then (get_prop data ''reference_number'') (\<lambda>v_reference_number.
     and_then (get_prop data ''shift_timings'') (\<lambda>v_shift_timings.
     and_then (get_prop data ''apply_url'') (\<lambda>v_apply_url.
       Inr \<lparr> title = string_or v_title ''Healthcare Professional'',
             description = string_or v_description ''Join our healthcare team.'',
             requirements = requirements_of v_requirements,
             location = string_or v_location ''Multiple locations'',
             salary_range = string_or_undefined v_salary_range,
             employment_type = employment_type_of v_employment_type,
             company_name = string_or_undefined v_company_name,
             reference_number = string_or_undefined v_reference_number,
             shift_timings = string_or_undefined v_shift_timings,
             apply_url = string_or v_apply_url [] \<rparr>))))))))))"

text \<open>
  \<open>createFallbackJobData\<close>. \<open>includes_str\<close> is \<open>String.includes\<close>, \<open>split_on\<close> is \<open>split\<close> on a
  one-character separator, and \<open>capitalize p\<close> is \<open>p.charAt(0).toUpperCase() + p.slice(1)\<close>
  (\<open>upper_char\<close> covers the ASCII letters, which is what a host name holds). The host name of
  the URL is a parameter, \<open>URL_hostname\<close>, with \<open>None\<close> when \<open>new URL(jobUrl)\<close> throws; the
  code ignores that error and leaves \<open>company_name\<close> undefined.
\<close>

fun includes_str :: "string \<Rightarrow> string \<Rightarrow> bool" where
  "includes_str [] needle = (needle = [])"
| "includes_str (c # cs) needle = (prefix needle (c # cs) \<or> includes_str cs needle)"

fun split_on :: "char \<Rightarrow> string \<Rightarrow> string list" where
  "split_on c [] = [[]]"
| "split_on c (x # xs) =
     (if x = c then [] # split_on c xs
      else (x # hd (split_on c xs)) # tl (split_on c xs))"

definition upper_char :: "char \<Rightarrow> char" where
  "upper_char c = (let n = (of_char c :: nat) in
     if 97 \<le> n \<and> n \<le> 122 then char_of (n - 32) else c)"

fun capitalize :: "string \<Rightarrow> string" where
  "capitalize [] = []"
| "capitalize (c # cs) = upper_char c # cs"

definition fallback_title :: "string \<Rightarrow> string" where
  "fallback_title urlParts =
     (if includes_str urlParts ''nurse'' then ''Registered Nurse''
      else if includes_str urlParts ''doctor'' \<or> includes_str urlParts ''physician'' then ''Physician''
      else if includes_str urlParts ''therapist'' then ''Therapist''
      else if includes_str urlParts ''technician'' then ''Medical Technician''
      else if includes_str urlParts ''administrator'' then ''Healthcare Administrator''
      else ''Healthcare Professional'')"

definition fallback_employment_type :: "string \<Rightarrow> string" where
  "fallback_employment_type urlParts =
     (if includes_str urlParts ''part-time'' then ''part-time''
      else if includes_str urlParts ''contract'' then ''contract''
      else if includes_str urlParts ''temporary'' then ''temporary''
      else ''full-time'')"

definition fallback_company_name :: "(string \<Rightarrow> string option) \<Rightarrow> string \<Rightarrow> string option" where
  "fallback_company_name URL_hostname jobUrl =
     (case URL_hostname jobUrl of
        None \<Rightarrow> None
      | Some h \<Rightarrow>
          (let hostname = replace_first (Lit ''www.'') [] h;
               parts = split_on CHR ''.'' hostname
           in if length parts > 1 then Some (capitalize (hd parts)) else None))"

definition newline :: string where
  "newline = [CHR 0x0A]"

definition createFallbackJobData :: "(string \<Rightarrow> string option) \<Rightarrow> string \<Rightarrow> ExtractedJobData" where
  "createFallbackJobData URL_hostname jobUrl =
     (let urlParts = toLowerCase jobUrl;
          title = fallback_title urlParts
      in \<lparr> title = title,
            description =
              ''We are seeking a qualified '' @ title @
              '' to join our healthcare team. This position offers an opportunity to make a meaningful impact in patient care while working in a supportive and professional environment.'' @
              newline @ newline @
              ''The successful candidate will be responsible for providing high-quality healthcare services, collaborating with multidisciplinary teams, and maintaining the highest standards of patient care and safety.'' @
              newline @ newline @
              ''We offer competitive compensation, comprehensive benefits, and opportunities for professional growth and development.'',
            requirements =
              [''Relevant professional certification/license required'',
               ''Previous healthcare experience preferred'',
               ''Strong communication and interpersonal skills'',
               ''Ability to work effectively in a team environment'',
               ''Commitment to patient care excellence''],
            location = ''Multiple locations'',
            salary_range = None,
            employment_type = fallback_employment_type urlParts,
            company_name = fallback_company_name URL_hostname jobUrl,
            reference_number = None,
            shift_timings = None,
            apply_url = jobUrl \<rparr>)"

text \<open>
  The completion request is outside the program. Its outcome is a parameter \<open>completion\<close> of
  the model: \<open>Inl e\<close> when the request is rejected with \<open>e\<close> (or the read of
  \<open>completion.choices[0]\<close> throws), and otherwise \<open>Inr\<close> of the content
  \<open>completion.choices[0]?.message?.content\<close>, with \<open>None\<close> for \<open>undefined\<close> and \<open>null\<close>.
  \<open>response_content\<close> is the test \<open>if (!response) throw new Error('No response from OpenAI')\<close>.
\<close>

definition response_content :: "string option \<Rightarrow> error + string" where
  "response_content content =
     (case content of
        None \<Rightarrow> Inl (Error ''No response from OpenAI'')
      | Some response \<Rightarrow>
          if response = [] then Inl (Error ''No response from OpenAI'') else Inr response)"

text \<open>
  \<open>extractJobFromUrl\<close>: \<open>extractJobFromUrl_try\<close> is the body of its \<open>try\<close> block and the
  function itself adds the \<open>catch\<close> clause, which returns \<open>createFallbackJobData(jobUrl)\<close>.
  The clause first tests \<open>error.message.includes('JSON')\<close> to log a hint; every value
  thrown in the block is an error object with a message, so the test does not throw. The
  two configuration lookups before the \<open>try\<close> block (from a module outside the sources
  studied) are taken to return.
\<close>

definition extractJobFromUrl_try ::
  "(string \<Rightarrow> error + jsval) \<Rightarrow> error + string option \<Rightarrow> string \<Rightarrow> error + ExtractedJobData" where
  "extractJobFromUrl_try JSON_parse completion jobUrl =
     and_then completion (\<lambda>content.
     and_then (response_content content) (\<lambda>response.
     and_then (parseJsonSafely JSON_parse (cleanJsonResponse response)) (\<lambda>parsedData.
     and_then (validateJsonStructure parsedData) (\<lambda>result.
       Inr (result\<lparr>apply_url := jobUrl\<rparr>)))))"

definition extractJobFromUrl ::
  "(string \<Rightarrow> error + jsval) \<Rightarrow> (string \<Rightarrow> string option) \<Rightarrow> error + string option \<Rightarrow> string
     \<Rightarrow> ExtractedJobData" where
  "extractJobFromUrl JSON_parse URL_hostname completion jobUrl =
     (case extractJobFromUrl_try JSON_parse completion jobUrl of
        Inr result \<Rightarrow> result
      | Inl err \<Rightarrow> createFallbackJobData URL_hostname jobUrl)"

section \<open>openai: generateCampaignSequence\<close>

text \<open>
  The interfaces \<open>CampaignPrompt\<close> and \<open>EmailStep\<close>. The fields of a step built from a parsed
  response hold whatever values the response has, so they are of type \<open>jsval\<close>; \<open>id_step\<close>
  and \<open>type_step\<close> are the fields \<open>id\<close> and \<open>type\<close>.
\<close>

record CampaignPrompt =
  campaignType :: string
  targetAudience :: string
  campaignGoal :: string
  contentSources :: "string list"
  aiInstructions :: string
  tone :: string
  companyName :: string
  recruiterName :: string

record EmailStep =
  id_step :: string
  type_step :: jsval
  subject :: jsval
  content :: jsval
  delay :: jsval
  delayUnit :: jsval

text \<open>
  \<open>array_items v\<close> is the method call \<open>v.map(\<dots>)\<close> as far as it can fail: on anything but an
  array it throws a \<open>TypeError\<close>. The callback of \<open>emailData.map\<close> is \<open>sequence_step\<close>:
  \<^item> \<open>delayUnit\<close> is \<open>immediately\<close> at index 0, else \<open>email.delayUnit\<close> if it is one of the two
    units, else \<open>business days\<close>;
  \<^item> \<open>delay\<close> is \<open>Math.max(0, parseInt(email.delay) || (index === 0 ? 0 : index * 2))\<close>, where
    \<open>parseInt\<close> is a parameter that returns \<open>None\<close> for \<open>NaN\<close>.
\<close>

fun array_items :: "jsval \<Rightarrow> error + jsval list" where
  "array_items (JArr vs) = Inr vs"
| "array_items JUndef = Inl (TypeError ''Cannot read properties of undefined (reading map)'')"
| "array_items JNull = Inl (TypeError ''Cannot read properties of null (reading map)'')"
| "array_items _ = Inl (TypeError ''map is not a function'')"

definition default_delay :: "nat \<Rightarrow> int" where
  "default_delay index = (if index = 0 then 0 else int index * 2)"

definition sequence_delay :: "(jsval \<Rightarrow> int option) \<Rightarrow> nat \<Rightarrow> jsval \<Rightarrow> int" where
  "sequence_delay parseInt index v =
     max 0 (case parseInt v of
              None \<Rightarrow> default_delay index
            | Some n \<Rightarrow> if n \<noteq> 0 then n else default_delay index)"

definition sequence_delayUnit :: "nat \<Rightarrow> jsval \<Rightarrow> error + jsval" where
  "sequence_delayUnit index email =
     (if index = 0 then Inr (JStr ''immediately'')
      else and_then (get_prop email ''delayUnit'') (\<lambda>u.
             if u = JStr ''immediately'' \<or> u = JStr ''business days'' then Inr u
             else Inr (JStr ''business days'')))"

definition sequence_step :: "(jsval \<Rightarrow> int option) \<Rightarrow> nat \<times> jsval \<Rightarrow> error + EmailStep" where
  "sequence_step parseInt ie =
     (case ie of (index, email) \<Rightarrow>
        and_then (sequence_delayUnit index email) (\<lambda>unit.
        and_then (get_prop email ''type'') (\<lambda>v_type.
        and_then (get_prop email ''subject'') (\<lambda>v_subject.
        and_then (get_prop email ''content'') (\<lambda>v_content.
        and_then (get_prop email ''delay'') (\<lambda>v_delay.
          Inr \<lparr> id_step = ''step-'' @ show_nat (index + 1),
                type_step = (if v_type = JStr ''connection'' then JStr ''connection'' else JStr ''email''),
                subject = or_else v_subject (JStr (''Follow-up '' @ show_nat (index + 1))),
                content = or_else v_content (JStr ''Email content here...''),
                delay = JNum (of_int (sequence_delay parseInt index v_delay)),
                delayUnit = unit \<rparr>))))))"

text \<open>The sequence built in the \<open>catch\<close> clause of \<open>generateCampaignSequence\<close>.\<close>

definition fallbackSequence :: "CampaignPrompt \<Rightarrow> EmailStep list" where
  "fallbackSequence prompt =
     [\<lparr> id_step = ''step-1'',
        type_step = JStr ''email'',
        subject = JStr ''{{First Name}}, interested in a new opportunity?'',
        content = JStr (''Hi {{First Name}},'' @ newline @ newline @
          ''I hope this message finds you well. I came across your profile and was impressed by your experience in healthcare.'' @
          newline @ newline @
          ''We have some exciting opportunities at {{Company Name}} that I think would be a great fit for your background and career goals.'' @
          newline @ newline @
          ''Would you be open to a brief conversation about these opportunities?'' @
          newline @ newline @
          ''Best regards,'' @ newline @ recruiterName prompt),
        delay = JNum 0,
        delayUnit = JStr ''immediately'' \<rparr>,
      \<lparr> id_step = ''step-2'',
        type_step = JStr ''email'',
        subject = JStr ''Following up on healthcare opportunities'',
        content = JStr (''Hi {{First Name}},'' @ newline @ newline @
          ''I wanted to follow up on my previous message about opportunities at {{Company Name}}.'' @
          newline @ newline @
          ''I understand you're likely busy, but I believe these roles could be a significant step forward in your career. We offer competitive compensation, excellent benefits, and a supportive work environment.'' @
          newline @ newline @
          ''Would you have 10 minutes this week for a quick call?'' @
          newline @ newline @
          ''Best,'' @ newline @ recruiterName prompt),
        delay = JNum 3,
        delayUnit = JStr ''business days'' \<rparr>,
      \<lparr> id_step = ''step-3'',
        type_step = JStr ''email'',
        subject = JStr ''Last follow-up - {{Company Name}} opportunities'',
        content = JStr (''Hi {{First Name}},'' @ newline @ newline @
          ''This will be my final follow-up regarding the opportunities at {{Company Name}}.'' @
          newline @ newline @
          ''I wanted to make sure you didn't miss out on these positions that align well with your background. If you're interested in learning more, please feel free to reach out.'' @
          newline @ newline @
          ''If now isn't the right time, I completely understand and wish you all the best in your career.'' @
          newline @ newline @
          ''Best regards,'' @ newline @ recruiterName prompt),
        delay = JNum 5,
        delayUnit = JStr ''business days'' \<rparr>]"

text \<open>
  \<open>generateCampaignSequence\<close>: the body of the \<open>try\<close> block and, around it, the \<open>catch\<close>
  clause. The logging calls are left out. The configuration lookups and the construction of
  the prompt text, before the \<open>try\<close> block, are taken to return.
\<close>

definition generateCampaignSequence_try ::
  "(string \<Rightarrow> error + jsval) \<Rightarrow> (jsval \<Rightarrow> int option) \<Rightarrow> error + string option
     \<Rightarrow> error + EmailStep list" where
  "generateCampaignSequence_try JSON_parse parseInt completion =
     and_then completion (\<lambda>content.
     and_then (response_content content) (\<lambda>response.
     and_then (JSON_parse response) (\<lambda>emailData.
     and_then (array_items emailData) (\<lambda>emails.
       sequence (map (sequence_step parseInt) (enumerate 0 emails))))))"

definition generateCampaignSequence ::
  "(string \<Rightarrow> error + jsval) \<Rightarrow> (jsval \<Rightarrow> int option) \<Rightarrow> error + string option
     \<Rightarrow> CampaignPrompt \<Rightarrow> EmailStep list" where
  "generateCampaignSequence JSON_parse parseInt completion prompt =
     (case generateCampaignSequence_try JSON_parse parseInt completion of
        Inr emailSteps \<Rightarrow> emailSteps
      | Inl err \<Rightarrow> fallbackSequence prompt)"

section \<open>campaignAssistantAI: processUserInput and generateCampaignFromDraft\<close>

text \<open>
  \<open>processUserInput\<close> works on a \<open>Partial<CampaignDraft>\<close>, an object of which any field may
  be absent and which the response may extend: a map from property names to values.
  \<open>field obj k\<close> is the read \<open>obj.k\<close>.
\<close>

type_synonym draft_object = "string \<rightharpoonup> jsval"

record AssistantResponse =
  message_r :: jsval
  suggestions :: jsval
  campaignDraft :: draft_object
  nextStep :: jsval
  isComplete :: jsval

definition field :: "draft_object \<Rightarrow> string \<Rightarrow> jsval" where
  "field obj k = (case obj k of None \<Rightarrow> JUndef | Some v \<Rightarrow> v)"

definition determineNextStep :: "draft_object \<Rightarrow> string" where
  "determineNextStep draft =
     (if \<not> truthy (field draft ''goal'') then ''goal''
      else if \<not> truthy (field draft ''targetAudience'') then ''audience''
      else if \<not> truthy (field draft ''tone'') then ''tone''
      else if \<not> truthy (field draft ''additionalContext'') then ''context''
      else ''review'')"

text \<open>
  \<open>createFallbackResponse\<close>. The table \<open>fallbackResponses\<close> is keyed by the step;
  \<open>recentSearches.slice(0, 4)\<close> is \<open>take 4\<close>. The lookup
  \<open>fallbackResponses[nextStep] || fallbackResponses.goal\<close> falls back on the first entry.
\<close>

definition fallbackResponses :: "string list \<Rightarrow> (string \<times> string \<times> string list) list" where
  "fallbackResponses recentSearches =
     [(''goal'',
        ''I'd love to help you create a campaign! What's the main goal you want to achieve with this campaign?'',
        [''Build a talent community for healthcare professionals'',
         ''Nurture passive candidates with industry insights'',
         ''Reengage inactive candidates with new opportunities'',
         ''Provide educational content to boost candidate skills'']),
      (''audience'',
        ''Great goal! Now, who is your target audience for this campaign?'',
        (if length recentSearches > 0 then take 4 recentSearches
         else [''Healthcare professionals nationwide'',
               ''Registered nurses in specific locations'',
               ''New graduates entering healthcare'',
               ''Experienced specialists in oncology/ICU''])),
      (''tone'',
        ''Perfect! What tone would you like for your campaign communications?'',
        [''Professional'', ''Friendly'', ''Casual'', ''Formal'']),
      (''context'',
        ''Excellent! Is there any additional context or specific requirements for this campaign?'',
        [''Include company benefits information'',
         ''Focus on career development opportunities'',
         ''Highlight work-life balance'',
         ''Emphasize competitive compensation'']),
      (''review'',
        ''Let me review your campaign details. Does everything look correct?'',
        [''Yes, generate the campaign'', ''Let me make some changes''])]"

definition createFallbackResponse :: "string \<Rightarrow> draft_object \<Rightarrow> string list \<Rightarrow> AssistantResponse" where
  "createFallbackResponse userInput currentDraft recentSearches =
     (let nextStep = determineNextStep currentDraft;
          response = (case map_of (fallbackResponses recentSearches) nextStep of
                        Some r \<Rightarrow> r
                      | None \<Rightarrow> snd (hd (fallbackResponses recentSearches)))
      in \<lparr> message_r = JStr (fst response),
            suggestions = JArr (map JStr (snd response)),
            campaignDraft = currentDraft,
            nextStep = JStr nextStep,
            isComplete = JBool False \<rparr>)"

text \<open>
  \<open>spread v\<close> holds the own enumerable properties that \<open>{ ...currentDraft, ...v }\<close> copies from
  \<open>v\<close>: those of an object, the indices of an array or of a string, none otherwise.
\<close>

fun spread :: "jsval \<Rightarrow> draft_object" where
  "spread (JObj kvs) = map_of kvs"
| "spread (JArr vs) = map_of (zip (map show_nat [0..<length vs]) vs)"
| "spread (JStr s) = map_of (zip (map show_nat [0..<length s]) (map (\<lambda>c. JStr [c]) s))"
| "spread _ = Map.empty"

text \<open>
  \<open>processUserInput\<close>: the body of the \<open>try\<close> block and, around it, the \<open>catch\<close> clause, which
  returns \<open>createFallbackResponse(userInput, currentDraft, recentSearches)\<close>. The
  configuration lookup and the construction of the prompt texts, before the \<open>try\<close> block,
  are taken to return.
\<close>

definition processUserInput_try ::
  "(string \<Rightarrow> error + jsval) \<Rightarrow> error + string option \<Rightarrow> draft_object \<Rightarrow> error + AssistantResponse" where
  "processUserInput_try JSON_parse completion currentDraft =
     and_then completion (\<lambda>content.
     and_then (response_content content) (\<lambda>response.
     and_then (JSON_parse (cleanJsonResponse_campaign response)) (\<lambda>parsedResponse.
     and_then (get_prop parsedResponse ''message'') (\<lambda>v_message.
     and_then (get_prop parsedResponse ''suggestions'') (\<lambda>v_suggestions.
     and_then (get_prop parsedResponse ''campaignDraft'') (\<lambda>v_campaignDraft.
     and_then (get_prop parsedResponse ''nextStep'') (\<lambda>v_nextStep.
     and_then (get_prop parsedResponse ''isComplete'') (\<lambda>v_isComplete.
       Inr \<lparr> message_r = or_else v_message (JStr ''I'm here to help you create your campaign.''),
             suggestions = or_else v_suggestions (JArr []),
             campaignDraft = currentDraft ++ spread v_campaignDraft,
             nextStep = or_else v_nextStep (JStr (determineNextStep currentDraft)),
             isComplete = or_else v_isComplete (JBool False) \<rparr>))))))))"

definition processUserInput ::
  "(string \<Rightarrow> error + jsval) \<Rightarrow> error + string option \<Rightarrow> string \<Rightarrow> (string \<times> string) list
     \<Rightarrow> draft_object \<Rightarrow> string list \<Rightarrow> AssistantResponse" where
  "processUserInput JSON_parse completion userInput conversationHistory currentDraft recentSearches =
     (case processUserInput_try JSON_parse completion currentDraft of
        Inr result \<Rightarrow> result
      | Inl err \<Rightarrow> createFallbackResponse userInput currentDraft recentSearches)"

text \<open>
  The types \<open>CampaignExample\<close> and \<open>CampaignDraft\<close> are declared outside the sources studied.
  The records hold the fields that the two functions below read: of an example, \<open>campaignType\<close>,
  \<open>collateralToUse\<close> and \<open>sequenceAndExamples\<close> with its \<open>steps\<close> and \<open>examples\<close>; of a draft,
  \<open>goal\<close> and six optional texts.
\<close>

record sequence_and_examples =
  steps :: nat
  examples :: "string list"

record CampaignExample =
  campaignType_e :: string
  collateralToUse :: "string list"
  sequenceAndExamples :: sequence_and_examples

record CampaignDraft =
  goal :: string
  matchedExampleId :: "string option"
  targetAudience_d :: "string option"
  tone_d :: "string option"
  companyName_d :: "string option"
  recruiterName_d :: "string option"
  additionalContext :: "string option"

record generated_campaign =
  campaignData :: jsval
  emailSteps :: "EmailStep list"

text \<open>
  \<open>createFallbackCampaign\<close>. \<open>optional\<close> is an optional field as a value and \<open>interpolate\<close> is
  what a template literal inserts for it; \<open>context_or_default c\<close> is \<open>c || 'We have \<dots>'\<close>.
  \<open>fallback_step\<close> is the callback of \<open>example.sequenceAndExamples.examples.map\<close>.
\<close>

fun optional :: "string option \<Rightarrow> jsval" where
  "optional None = JUndef"
| "optional (Some s) = JStr s"

fun interpolate :: "string option \<Rightarrow> string" where
  "interpolate None = ''undefined''"
| "interpolate (Some s) = s"

definition context_or_default :: "string option \<Rightarrow> string" where
  "context_or_default c =
     (case c of
        Some s \<Rightarrow> if s \<noteq> [] then s
                  else ''We have exciting opportunities that align with your background and career goals.''
      | None \<Rightarrow> ''We have exciting opportunities that align with your background and career goals.'')"

definition fallback_step :: "CampaignDraft \<Rightarrow> nat \<times> string \<Rightarrow> EmailStep" where
  "fallback_step draft ie =
     (case ie of (index, exampleTitle) \<Rightarrow>
        \<lparr> id_step = ''step-'' @ show_nat (index + 1),
          type_step = JStr ''email'',
          subject = JStr (''{{First Name}}, '' @ toLowerCase exampleTitle),
          content = JStr (''Hi {{First Name}},'' @ newline @ newline @
            ''I hope this message finds you well. '' @ exampleTitle @ '' at {{Company Name}}.'' @
            newline @ newline @
            context_or_default (additionalContext draft) @
            newline @ newline @
            ''Best regards,'' @ newline @ interpolate (recruiterName_d draft)),
          delay = JNum (if index = 0 then 0 else of_nat (index * 2)),
          delayUnit = JStr (if index = 0 then ''immediately'' else ''business days'') \<rparr>)"

definition createFallbackCampaign :: "CampaignDraft \<Rightarrow> CampaignExample \<Rightarrow> generated_campaign" where
  "createFallbackCampaign draft example =
     \<lparr> campaignData = JObj
         [(''name'', JStr (take 50 (goal draft) @ (if length (goal draft) > 50 then ''...'' else []))),
          (''type'', JStr (campaignType_e example)),
          (''targetAudience'', optional (targetAudience_d draft)),
          (''campaignGoal'', JStr (goal draft)),
          (''tone'', optional (tone_d draft)),
          (''companyName'', optional (companyName_d draft)),
          (''recruiterName'', optional (recruiterName_d draft)),
          (''contentSources'', JArr (map JStr (collateralToUse example))),
          (''aiInstructions'', optional (additionalContext draft))],
       emailSteps = map (fallback_step draft) (enumerate 0 (examples (sequenceAndExamples example))) \<rparr>"

text \<open>
  \<open>generateCampaignFromDraft\<close>. \<open>draft_step\<close> is the callback of \<open>result.emailSteps.map\<close>; at
  index 0 it does not read \<open>step.delay\<close> and \<open>step.delayUnit\<close>. \<open>generateCampaignFromDraft_try\<close>
  is the body of the \<open>try\<close> block. \<open>find_matching_example\<close> is the lookup before it: by
  \<open>draft.matchedExampleId\<close> if that is truthy, then, if nothing was found, by \<open>draft.goal\<close>.
  The two lookup functions are imported from a module outside the sources studied and are
  parameters of the model, \<open>None\<close> standing for \<open>null\<close> and \<open>undefined\<close>. With no
  example the function throws before the \<open>try\<close> block; the \<open>catch\<close> clause returns
  \<open>createFallbackCampaign(draft, matchingExample)\<close>.
\<close>

definition draft_step :: "nat \<times> jsval \<Rightarrow> error + EmailStep" where
  "draft_step ie =
     (case ie of (index, step) \<Rightarrow>
        and_then (get_prop step ''type'') (\<lambda>v_type.
        and_then (get_prop step ''subject'') (\<lambda>v_subject.
        and_then (get_prop step ''content'') (\<lambda>v_content.
        and_then (if index = 0 then Inr (JNum 0)
                  else and_then (get_prop step ''delay'') (\<lambda>v. Inr (or_else v (JNum (of_nat (index * 2))))))
                 (\<lambda>v_delay.
        and_then (if index = 0 then Inr (JStr ''immediately'')
                  else and_then (get_prop step ''delayUnit'') (\<lambda>v. Inr (or_else v (JStr ''business days''))))
                 (\<lambda>v_delayUnit.
          Inr \<lparr> id_step = ''step-'' @ show_nat (index + 1),
                type_step = or_else v_type (JStr ''email''),
                subject = or_else v_subject (JStr (''Follow-up '' @ show_nat (index + 1))),
                content = or_else v_content (JStr ''Email content here...''),
                delay = v_delay,
                delayUnit = v_delayUnit \<rparr>))))))"

definition generateCampaignFromDraft_try ::
  "(string \<Rightarrow> error + jsval) \<Rightarrow> error + string option \<Rightarrow> error + generated_campaign" where
  "generateCampaignFromDraft_try JSON_parse completion =
     and_then completion (\<lambda>content.
     and_then (response_content content) (\<lambda>response.
     and_then (JSON_parse (cleanJsonResponse_campaign response)) (\<lambda>result.
     and_then (get_prop result ''emailSteps'') (\<lambda>v_emailSteps.
     and_then (array_items v_emailSteps) (\<lambda>items.
     and_then (sequence (map draft_step (enumerate 0 items))) (\<lambda>emailSteps.
     and_then (get_prop result ''campaignData'') (\<lambda>v_campaignData.
       Inr \<lparr> campaignData = v_campaignData, emailSteps = emailSteps \<rparr>)))))))"

definition find_matching_example ::
  "(string \<Rightarrow> CampaignExample option) \<Rightarrow> (string \<Rightarrow> CampaignExample option) \<Rightarrow> CampaignDraft
     \<Rightarrow> CampaignExample option" where
  "find_matching_example findCampaignExampleById findCampaignExampleByGoal draft =
     (let matchingExample =
            (case matchedExampleId draft of
               None \<Rightarrow> None
             | Some i \<Rightarrow> if i \<noteq> [] then findCampaignExampleById i else None)
      in case matchingExample of
           Some ex \<Rightarrow> Some ex
         | None \<Rightarrow> findCampaignExampleByGoal (goal draft))"

definition generateCampaignFromDraft ::
  "(string \<Rightarrow> CampaignExample option) \<Rightarrow> (string \<Rightarrow> CampaignExample option)
     \<Rightarrow> (string \<Rightarrow> error + jsval) \<Rightarrow> error + string option \<Rightarrow> CampaignDraft
     \<Rightarrow> error + generated_campaign" where
  "generateCampaignFromDraft findCampaignExampleById findCampaignExampleByGoal JSON_parse completion draft =
     (case find_matching_example findCampaignExampleById findCampaignExampleByGoal draft of
        None \<Rightarrow> Inl (Error ''No matching campaign example found. Cannot proceed without a guideline.'')
      | Some matchingExample \<Rightarrow>
          (case generateCampaignFromDraft_try JSON_parse completion of
             Inr result \<Rightarrow> Inr result
           | Inl err \<Rightarrow> Inr (createFallbackCampaign draft matchingExample)))"
section \<open>Auxiliary definitions for the statements\<close>

text \<open>
  The number of capture groups a match of a regular expression reports (groups under a
  quantifier or a lookahead report nothing in \<open>rmatch\<close>).
\<close>

fun ngroups :: "re \<Rightarrow> nat" where
  "ngroups (Grp a) = Suc (ngroups a)"
| "ngroups (Seq a b) = ngroups a + ngroups b"
| "ngroups _ = 0"

text \<open>
  Reading a property of a value that is neither \<open>null\<close> nor \<open>undefined\<close> never throws;
  \<open>prop_of\<close> is the value read.
\<close>

fun prop_of :: "jsval \<Rightarrow> string \<Rightarrow> jsval" where
  "prop_of (JObj kvs) k = (case map_of kvs k of None \<Rightarrow> JUndef | Some v \<Rightarrow> v)"
| "prop_of _ k = JUndef"

text \<open>
  The functions take the platform's \<open>JSON.parse\<close> as a parameter. \<open>literal_parser\<close> is one
  concrete parser, accepting five JSON texts only, at which the theorems are instantiated.
\<close>

definition literal_parser :: "string \<Rightarrow> error + jsval" where
  "literal_parser s =
     (if s = ''null'' then Inr JNull
      else if s = ''true'' then Inr (JBool True)
      else if s = ''false'' then Inr (JBool False)
      else if s = ''{}'' then Inr (JObj [])
      else if s = ''[]'' then Inr (JArr [])
      else Inl (SyntaxError ''Unexpected token''))"

definition demo_prompt :: CampaignPrompt where
  "demo_prompt = \<lparr> campaignType = ''nurture'', targetAudience = ''ICU nurses'',
                   campaignGoal = ''Reengage inactive candidates'', contentSources = [],
                   aiInstructions = [], tone = ''Friendly'', companyName = ''Acme Health'',
                   recruiterName = ''Dana'' \<rparr>"

definition demo_job :: jsval where
  "demo_job = JObj [(''title'', JStr ''RN''),
                    (''requirements'', JArr [JStr ''BLS'', JNum 3, JNull]),
                    (''employment_type'', JStr ''contract'')]"

definition demo_example :: CampaignExample where
  "demo_example = \<lparr> campaignType_e = ''nurture'', collateralToUse = [''newsletters''],
                    sequenceAndExamples = \<lparr> steps = 2, examples = [''Welcome'', ''Open roles''] \<rparr> \<rparr>"

definition demo_draft :: CampaignDraft where
  "demo_draft = \<lparr> goal = ''Nurture passive candidates'', matchedExampleId = Some ''nurture-1'',
                  targetAudience_d = Some ''ICU nurses'', tone_d = Some ''Friendly'',
                  companyName_d = Some ''Acme Health'', recruiterName_d = Some ''Dana'',
                  additionalContext = None \<rparr>"

definition demo_by_id :: "string \<Rightarrow> CampaignExample option" where
  "demo_by_id i = (if i = ''nurture-1'' then Some demo_example else None)"

definition demo_by_goal :: "string \<Rightarrow> CampaignExample option" where
  "demo_by_goal g = None"

text \<open>
  The end positions at which a regular expression can match from a start position: the
  matcher's results with the captures forgotten.
\<close>

definition ends :: "re \<Rightarrow> string \<Rightarrow> nat \<Rightarrow> nat set" where
  "ends r w i = snd ` set (rmatch r w i)"

text \<open>
  \<open>run_of P w i j\<close>: the characters of \<open>w\<close> at positions \<open>i\<close> up to \<open>j - 1\<close> all satisfy \<open>P\<close>.
\<close>

definition run_of :: "(char \<Rightarrow> bool) \<Rightarrow> string \<Rightarrow> nat \<Rightarrow> nat \<Rightarrow> bool" where
  "run_of P w i j = (i \<le> j \<and> j \<le> length w \<and> (\<forall>k. i \<le> k \<and> k < j \<longrightarrow> P (w ! k)))"

text \<open>A string that \<open>trim\<close> leaves as it is: empty, or with no white space at either end.\<close>

definition trimmed :: "string \<Rightarrow> bool" where
  "trimmed w = (w = [] \<or> (\<not> is_space (hd w) \<and> \<not> is_space (last w)))"

text \<open>
  The second half of the shared \<open>cleanJsonResponse\<close>, named for the proofs: \<open>json_span\<close> is
  the cut from the first \<open>{\<close> to the last \<open>}\<close>, and \<open>isolate\<close> is that cut followed by the
  two global replacements and the final \<open>trim\<close> (\<open>cleanJsonResponse_isolate\<close> below shows
  that \<open>cleanJsonResponse\<close> is the fence removal followed by \<open>isolate\<close>).
\<close>

definition json_span :: "string \<Rightarrow> string" where
  "json_span cleaned =
     (case (indexOf CHR ''{'' cleaned, lastIndexOf CHR ''}'' cleaned) of
        (Some a, Some b) \<Rightarrow> if a \<le> b then slice cleaned a (Suc b) else cleaned
      | _ \<Rightarrow> cleaned)"

definition isolate :: "string \<Rightarrow> string" where
  "isolate cleaned =
     trim (replace_all re_text_after ''}'' (replace_all re_text_before [] (json_span cleaned)))"

text \<open>A text in which some \<open>{\<close> comes before some \<open>}\<close>.\<close>

definition has_object :: "string \<Rightarrow> bool" where
  "has_object c = (\<exists>p m q. c = p @ CHR ''{'' # m @ CHR ''}'' # q)"

text \<open>
  The string grammar of JSON (ECMA-404), as \<open>JSON.parse\<close> reads a string literal: the text
  between the two double quotes may hold no unescaped double quote, no unescaped backslash
  and no character below U+0020; an escape is a backslash followed by one of
  \<open>" \ / b f n r t\<close> or by \<open>u\<close> and four hexadecimal digits. Strings of the model are
  sequences of 8-bit code units, so a \<open>\u\<close> escape above U+00FF has no value here.
\<close>

definition hex_digit :: "char \<Rightarrow> nat option" where
  "hex_digit c = (let n = (of_char c :: nat) in
     if 48 \<le> n \<and> n \<le> 57 then Some (n - 48)
     else if 65 \<le> n \<and> n \<le> 70 then Some (n - 55)
     else if 97 \<le> n \<and> n \<le> 102 then Some (n - 87)
     else None)"

definition code_unit :: "char \<Rightarrow> char \<Rightarrow> char \<Rightarrow> char \<Rightarrow> char option" where
  "code_unit a b c d =
     (case (hex_digit a, hex_digit b, hex_digit c, hex_digit d) of
        (Some h3, Some h2, Some h1, Some h0) \<Rightarrow>
          (let n = 4096 * h3 + 256 * h2 + 16 * h1 + h0
           in if n < 256 then Some (char_of n) else None)
      | _ \<Rightarrow> None)"

definition escape_char :: "char \<Rightarrow> char option" where
  "escape_char c =
     (if c = CHR 0x22 then Some (CHR 0x22)
      else if c = CHR 0x5C then Some (CHR 0x5C)
      else if c = CHR ''/'' then Some (CHR ''/'')
      else if c = CHR ''b'' then Some (CHR 0x08)
      else if c = CHR ''f'' then Some (CHR 0x0C)
      else if c = CHR ''n'' then Some (CHR 0x0A)
      else if c = CHR ''r'' then Some (CHR 0x0D)
      else if c = CHR ''t'' then Some (CHR 0x09)
      else None)"

fun json_string_chars :: "string \<Rightarrow> string option" where
  "json_string_chars [] = Some []"
| "json_string_chars [c] =
     (if c = CHR 0x5C \<or> c = CHR 0x22 \<or> (of_char c :: nat) < 32 then None else Some [c])"
| "json_string_chars (c # e # cs) =
     (if c = CHR 0x5C then
        (if e = CHR ''u'' then
           (case cs of
              h3 # h2 # h1 # h0 # rest \<Rightarrow>
                (case code_unit h3 h2 h1 h0 of
                   None \<Rightarrow> None
                 | Some u \<Rightarrow> map_option ((#) u) (json_string_chars rest))
            | _ \<Rightarrow> None)
         else
           (case escape_char e of
              None \<Rightarrow> None
            | Some u \<Rightarrow> map_option ((#) u) (json_string_chars cs)))
      else if c = CHR 0x22 \<or> (of_char c :: nat) < 32 then None
      else map_option ((#) c) (json_string_chars (e # cs)))"

definition json_string_literal :: "string \<Rightarrow> string option" where
  "json_string_literal s =
     (if 2 \<le> length s \<and> hd s = CHR 0x22 \<and> last s = CHR 0x22
      then json_string_chars (butlast (tl s)) else None)"

section \<open>Lemmas about the regular-expression matcher and the cleaning steps\<close>

lemmas rmatch_Star = rmatch.simps(8)
lemmas rmatch_Lazy = rmatch.simps(9)
declare rmatch.simps(8,9) [simp del]

lemma rmatch_bounds:
  "i \<le> length w \<Longrightarrow> (c, j) \<in> set (rmatch r w i) \<Longrightarrow> i \<le> j \<and> j \<le> length w"
proof (induction r w i arbitrary: c j rule: rmatch.induct)
  case (1 P w i)
  then show ?case by (auto split: if_splits)
next
  case (2 s w i)
  then have "slice w i (i + length s) = s" and "j = i + length s"
    by (auto split: if_splits)
  then have "length s = min (length w - i) (length s)"
    by (metis add_diff_cancel_left' length_drop length_take slice_def min.commute)
  with \<open>j = i + length s\<close> 2 show ?case by auto
next
  case (3 s w i)
  then have "toLowerCase (slice w i (i + length s)) = toLowerCase s" and j: "j = i + length s"
    by (auto split: if_splits)
  then have "length (slice w i (i + length s)) = length s"
    unfolding toLowerCase_def by (metis length_map)
  then have "length s = min (length w - i) (length s)"
    by (simp add: slice_def min.commute)
  with j 3 show ?case by auto
next
  case (4 w i)
  then show ?case by (auto split: if_splits)
next
  case (5 w i)
  then show ?case by (auto split: if_splits)
next
  case (6 w i)
  then show ?case by (auto split: if_splits)
next
  case (7 a b w i)
  from "7.prems"(2) obtain c1 k c2 where
    a: "(c1, k) \<in> set (rmatch a w i)" and b: "(c2, j) \<in> set (rmatch b w k)"
    by auto
  from "7.IH"(1)[OF "7.prems"(1) a] have k: "i \<le> k" "k \<le> length w" by auto
  from "7.IH"(2)[OF a refl k(2) b] k show ?case by simp
next
  case (8 a w i)
  from "8.prems"(2) consider "j = i" |
    c1 k where "(c1, k) \<in> set (rmatch a w i)" "i < k" "k \<le> length w"
      "(c, j) \<in> set (rmatch (Star a) w k)"
    by (auto simp: rmatch_Star[of a w i] split: if_splits)
  then show ?case
  proof cases
    case 1
    with "8.prems" show ?thesis by simp
  next
    case 2
    from "8.IH"(2)[OF 2(1) refl _ 2(3) 2(4)] 2 show ?thesis by simp
  qed
next
  case (9 a w i)
  from "9.prems"(2) consider "j = i" |
    c1 k where "(c1, k) \<in> set (rmatch a w i)" "i < k" "k \<le> length w"
      "(c, j) \<in> set (rmatch (Lazy a) w k)"
    by (auto simp: rmatch_Lazy[of a w i] split: if_splits)
  then show ?case
  proof cases
    case 1
    with "9.prems" show ?thesis by simp
  next
    case 2
    from "9.IH"(2)[OF 2(1) refl _ 2(3) 2(4)] 2 show ?thesis by simp
  qed
next
  case (10 a w i)
  then show ?case by auto
next
  case (11 a w i)
  then show ?case by (auto split: if_splits)
qed

lemma search_bounds:
  "search r w i = Some (p, c, e) \<Longrightarrow> i \<le> p \<and> p \<le> e \<and> e \<le> length w"
proof (induction r w i rule: search.induct)
  case (1 r w i)
  show ?case
  proof (cases "length w < i")
    case True
    with "1.prems" show ?thesis by (simp add: search.simps)
  next
    case False
    show ?thesis
    proof (cases "rmatch r w i")
      case Nil
      with False "1.prems" have "search r w (Suc i) = Some (p, c, e)"
        by (simp add: search.simps[of r w i])
      with False Nil "1.IH" show ?thesis by fastforce
    next
      case (Cons x xs)
      with False "1.prems" have "(c, e) \<in> set (rmatch r w i)" and "p = i"
        by (auto simp: search.simps[of r w i] split: prod.splits)
      with False rmatch_bounds[of i w c e r] show ?thesis by simp
    qed
  qed
qed

lemma in_ends: "k \<in> ends r w i \<longleftrightarrow> (\<exists>c. (c, k) \<in> set (rmatch r w i))"
  unfolding ends_def by force

lemma rmatch_Seq_mem:
  "(c, k) \<in> set (rmatch (Seq a b) w i) \<longleftrightarrow>
     (\<exists>c1 c2 j. c = c1 @ c2 \<and> (c1, j) \<in> set (rmatch a w i) \<and> (c2, k) \<in> set (rmatch b w j))"
proof
  assume "(c, k) \<in> set (rmatch (Seq a b) w i)"
  then show "\<exists>c1 c2 j. c = c1 @ c2 \<and> (c1, j) \<in> set (rmatch a w i) \<and> (c2, k) \<in> set (rmatch b w j)"
    by auto
next
  assume "\<exists>c1 c2 j. c = c1 @ c2 \<and> (c1, j) \<in> set (rmatch a w i) \<and> (c2, k) \<in> set (rmatch b w j)"
  then obtain c1 c2 j where c: "c = c1 @ c2" and a: "(c1, j) \<in> set (rmatch a w i)"
    and b: "(c2, k) \<in> set (rmatch b w j)" by blast
  from b have "(c1 @ c2, k) \<in> (\<lambda>(c2, k). (c1 @ c2, k)) ` set (rmatch b w j)"
    by (rule rev_image_eqI) simp
  then have "(c1 @ c2, k) \<in> set (case (c1, j) of (c1, j) \<Rightarrow> map (\<lambda>(c2, k). (c1 @ c2, k)) (rmatch b w j))"
    by simp
  with a have "(c1 @ c2, k) \<in> (\<Union>x \<in> set (rmatch a w i).
        set (case x of (c1, j) \<Rightarrow> map (\<lambda>(c2, k). (c1 @ c2, k)) (rmatch b w j)))"
    by (rule UN_I)
  with c show "(c, k) \<in> set (rmatch (Seq a b) w i)"
    by simp
qed

lemma ends_Seq: "ends (Seq a b) w i = (\<Union>j \<in> ends a w i. ends b w j)"
proof (rule set_eqI)
  fix k
  show "k \<in> ends (Seq a b) w i \<longleftrightarrow> k \<in> (\<Union>j \<in> ends a w i. ends b w j)"
    unfolding in_ends UN_iff Bex_def rmatch_Seq_mem by blast
qed

lemma rmatch_Nil_iff: "rmatch r w i = [] \<longleftrightarrow> ends r w i = {}"
  by (simp add: ends_def)

lemma ends_Sym: "ends (Sym P) w i = (if i < length w \<and> P (w ! i) then {Suc i} else {})"
  by (simp add: ends_def)

lemma ends_Lit: "ends (Lit s) w i = (if slice w i (i + length s) = s then {i + length s} else {})"
  by (simp add: ends_def)

lemma ends_LitCI:
  "ends (LitCI s) w i =
     (if toLowerCase (slice w i (i + length s)) = toLowerCase s then {i + length s} else {})"
  by (simp add: ends_def)

lemma ends_Bol: "ends Bol w i = (if i = 0 then {i} else {})"
  by (simp add: ends_def)

lemma ends_Eol: "ends Eol w i = (if i = length w then {i} else {})"
  by (simp add: ends_def)

lemma ends_Ahead: "ends (Ahead a) w i = (if ends a w i = {} then {} else {i})"
  by (simp add: ends_def)

lemma run_refl: "i \<le> length w \<Longrightarrow> run_of P w i i"
  by (auto simp: run_of_def)

lemma run_step:
  "run_of P w i j \<longleftrightarrow> (i = j \<and> j \<le> length w) \<or> (i < length w \<and> P (w ! i) \<and> run_of P w (Suc i) j)"
proof
  assume s: "run_of P w i j"
  show "(i = j \<and> j \<le> length w) \<or> (i < length w \<and> P (w ! i) \<and> run_of P w (Suc i) j)"
  proof (cases "i = j")
    case True
    with s show ?thesis by (simp add: run_of_def)
  next
    case False
    with s have "i < j" "j \<le> length w" by (auto simp: run_of_def)
    moreover from s \<open>i < j\<close> have "P (w ! i)" by (simp add: run_of_def)
    moreover from s have "\<forall>k. Suc i \<le> k \<and> k < j \<longrightarrow> P (w ! k)" by (simp add: run_of_def)
    ultimately show ?thesis by (simp add: run_of_def)
  qed
next
  assume "(i = j \<and> j \<le> length w) \<or> (i < length w \<and> P (w ! i) \<and> run_of P w (Suc i) j)"
  then show "run_of P w i j"
  proof
    assume "i = j \<and> j \<le> length w"
    then show ?thesis by (auto simp: run_of_def)
  next
    assume a: "i < length w \<and> P (w ! i) \<and> run_of P w (Suc i) j"
    have "P (w ! k)" if "i \<le> k" "k < j" for k
    proof (cases "k = i")
      case True
      with a show ?thesis by simp
    next
      case False
      with that have "Suc i \<le> k" by simp
      with a that show ?thesis by (simp add: run_of_def)
    qed
    with a show ?thesis by (simp add: run_of_def)
  qed
qed

lemma ends_Star_Sym: "i \<le> length w \<Longrightarrow> ends (Star (Sym P)) w i = {j. run_of P w i j}"
proof (induction "length w - i" arbitrary: i)
  case 0
  then have i: "i = length w" by simp
  have "rmatch (Star (Sym P)) w (length w) = [([], length w)]"
    by (simp add: rmatch_Star[of "Sym P" w "length w"])
  with i show ?case by (auto simp: ends_def run_of_def)
next
  case (Suc n)
  then have lt: "i < length w" by simp
  show ?case
  proof (cases "P (w ! i)")
    case True
    with lt have "rmatch (Star (Sym P)) w i = rmatch (Star (Sym P)) w (Suc i) @ [([], i)]"
      by (simp add: rmatch_Star[of "Sym P" w i])
    then have "ends (Star (Sym P)) w i = ends (Star (Sym P)) w (Suc i) \<union> {i}"
      by (simp add: ends_def image_Un)
    also from Suc lt have "ends (Star (Sym P)) w (Suc i) = {j. run_of P w (Suc i) j}"
      by simp
    finally show ?thesis using True lt run_step[of P w i] by auto
  next
    case False
    with lt have "rmatch (Star (Sym P)) w i = [([], i)]"
      by (simp add: rmatch_Star[of "Sym P" w i])
    then have "ends (Star (Sym P)) w i = {i}" by (simp add: ends_def)
    with False lt run_step[of P w i] show ?thesis by auto
  qed
qed

lemma ends_Lazy_Sym: "i \<le> length w \<Longrightarrow> ends (Lazy (Sym P)) w i = {j. run_of P w i j}"
proof (induction "length w - i" arbitrary: i)
  case 0
  then have i: "i = length w" by simp
  have "rmatch (Lazy (Sym P)) w (length w) = [([], length w)]"
    by (simp add: rmatch_Lazy[of "Sym P" w "length w"])
  with i show ?case by (auto simp: ends_def run_of_def)
next
  case (Suc n)
  then have lt: "i < length w" by simp
  show ?case
  proof (cases "P (w ! i)")
    case True
    with lt have "rmatch (Lazy (Sym P)) w i = ([], i) # rmatch (Lazy (Sym P)) w (Suc i)"
      by (simp add: rmatch_Lazy[of "Sym P" w i])
    then have "ends (Lazy (Sym P)) w i = ends (Lazy (Sym P)) w (Suc i) \<union> {i}"
      by (simp add: ends_def image_Un)
    also from Suc lt have "ends (Lazy (Sym P)) w (Suc i) = {j. run_of P w (Suc i) j}"
      by simp
    finally show ?thesis using True lt run_step[of P w i] by auto
  next
    case False
    with lt have "rmatch (Lazy (Sym P)) w i = [([], i)]"
      by (simp add: rmatch_Lazy[of "Sym P" w i])
    then have "ends (Lazy (Sym P)) w i = {i}" by (simp add: ends_def)
    with False lt run_step[of P w i] show ?thesis by auto
  qed
qed

lemma search_None_iff:
  "search r w s = None \<longleftrightarrow> (\<forall>i. s \<le> i \<and> i \<le> length w \<longrightarrow> rmatch r w i = [])"
proof (induction r w s rule: search.induct)
  case (1 r w s)
  show ?case
  proof (cases "length w < s")
    case True
    then have "search r w s = None" by (simp add: search.simps[of r w s])
    moreover from True have "\<forall>i. s \<le> i \<and> i \<le> length w \<longrightarrow> rmatch r w i = []" by auto
    ultimately show ?thesis by simp
  next
    case False
    show ?thesis
    proof (cases "rmatch r w s")
      case Nil
      with False have eq: "search r w s = search r w (Suc s)"
        by (simp add: search.simps[of r w s])
      from "1.IH"[OF False Nil]
      have ih: "search r w (Suc s) = None \<longleftrightarrow> (\<forall>i. Suc s \<le> i \<and> i \<le> length w \<longrightarrow> rmatch r w i = [])" .
      have "(\<forall>i. s \<le> i \<and> i \<le> length w \<longrightarrow> rmatch r w i = [])
              \<longleftrightarrow> (\<forall>i. Suc s \<le> i \<and> i \<le> length w \<longrightarrow> rmatch r w i = [])"
      proof
        assume "\<forall>i. s \<le> i \<and> i \<le> length w \<longrightarrow> rmatch r w i = []"
        then show "\<forall>i. Suc s \<le> i \<and> i \<le> length w \<longrightarrow> rmatch r w i = []" by simp
      next
        assume a: "\<forall>i. Suc s \<le> i \<and> i \<le> length w \<longrightarrow> rmatch r w i = []"
        show "\<forall>i. s \<le> i \<and> i \<le> length w \<longrightarrow> rmatch r w i = []"
        proof (intro allI impI)
          fix i assume i: "s \<le> i \<and> i \<le> length w"
          show "rmatch r w i = []"
          proof (cases "i = s")
            case True
            with Nil show ?thesis by simp
          next
            case False
            with i have "Suc s \<le> i" by simp
            with a i show ?thesis by simp
          qed
        qed
      qed
      with eq ih show ?thesis by simp
    next
      case (Cons x xs)
      obtain c j where "x = (c, j)" by (cases x)
      with Cons False have "search r w s = Some (s, c, j)"
        by (simp add: search.simps[of r w s])
      moreover from Cons False have "\<not> (\<forall>i. s \<le> i \<and> i \<le> length w \<longrightarrow> rmatch r w i = [])"
        by (metis le_refl list.distinct(1) not_less)
      ultimately show ?thesis by simp
    qed
  qed
qed

lemma search_least:
  assumes "s \<le> p" and "p \<le> length w" and "rmatch r w p = (c, e) # rest"
    and "\<forall>i. s \<le> i \<and> i < p \<longrightarrow> rmatch r w i = []"
  shows "search r w s = Some (p, c, e)"
  using assms
proof (induction "p - s" arbitrary: s)
  case 0
  then have "s = p" by simp
  with 0 show ?case by (simp add: search.simps[of r w p])
next
  case (Suc n)
  then have lt: "s < p" by simp
  with Suc.prems have nil: "rmatch r w s = []" by simp
  from lt Suc.prems have "\<not> length w < s" by simp
  with nil have "search r w s = search r w (Suc s)"
    by (simp add: search.simps[of r w s])
  moreover have "search r w (Suc s) = Some (p, c, e)"
  proof (rule Suc.hyps(1))
    from Suc.hyps(2) show "n = p - Suc s" by simp
    from lt show "Suc s \<le> p" by simp
    from Suc.prems show "p \<le> length w" by simp
    from Suc.prems show "rmatch r w p = (c, e) # rest" by simp
    from Suc.prems show "\<forall>i. Suc s \<le> i \<and> i < p \<longrightarrow> rmatch r w i = []" by simp
  qed
  ultimately show ?case by simp
qed

lemma search_unique_end:
  assumes "s \<le> p" and "p \<le> length w" and "ends r w p = {e}"
    and "\<forall>i. s \<le> i \<and> i < p \<longrightarrow> ends r w i = {}"
  shows "\<exists>c. search r w s = Some (p, c, e)"
proof -
  from assms(3) have ne: "rmatch r w p \<noteq> []" by (auto simp: ends_def)
  then obtain x rest where x: "rmatch r w p = x # rest" by (cases "rmatch r w p") auto
  obtain c j where xc: "x = (c, j)" by (cases x)
  with x have "j \<in> ends r w p" by (force simp: ends_def)
  with assms(3) have "j = e" by simp
  with x xc have "rmatch r w p = (c, e) # rest" by simp
  moreover from assms(4) have "\<forall>i. s \<le> i \<and> i < p \<longrightarrow> rmatch r w i = []"
    by (simp add: rmatch_Nil_iff)
  ultimately have "search r w s = Some (p, c, e)"
    using assms(1,2) by (intro search_least) auto
  then show ?thesis by blast
qed

lemma search_none:
  "(\<forall>i. s \<le> i \<and> i \<le> length w \<longrightarrow> ends r w i = {}) \<Longrightarrow> search r w s = None"
  by (simp add: search_None_iff rmatch_Nil_iff)

lemma replace_first_none:
  "(\<forall>i. i \<le> length w \<longrightarrow> ends r w i = {}) \<Longrightarrow> replace_first r rep w = w"
  by (simp add: replace_first_def search_none)

lemma replace_first_at:
  assumes "p \<le> length w" and "ends r w p = {e}" and "\<forall>i. i < p \<longrightarrow> ends r w i = {}"
  shows "replace_first r rep w = take p w @ rep @ drop e w"
proof -
  from search_unique_end[of 0 p w r e] assms
  obtain c where "search r w 0 = Some (p, c, e)" by auto
  then show ?thesis by (simp add: replace_first_def)
qed

lemma scan_nil:
  "(\<forall>i \<in> set positions. i < n \<or> rmatch r w i = []) \<Longrightarrow> scan r w n positions = []"
  by (induction positions) auto

lemma scan_skip:
  "(\<forall>i \<in> set xs. i < n \<or> rmatch r w i = []) \<Longrightarrow> scan r w n (xs @ ys) = scan r w n ys"
  by (induction xs) auto

lemma upt_split: "p \<le> n \<Longrightarrow> [0 ..< Suc n] = [0 ..< p] @ p # [Suc p ..< Suc n]"
proof -
  assume "p \<le> n"
  then have "p < Suc n" by simp
  then have "[p ..< Suc n] = p # [Suc p ..< Suc n]" by (rule upt_conv_Cons)
  moreover have "[0 ..< Suc n] = [0 ..< p] @ [p ..< Suc n]"
  proof -
    have "[0 ..< p + (Suc n - p)] = [0 ..< p] @ [p ..< p + (Suc n - p)]"
      by (rule upt_add_eq_append) simp
    moreover from \<open>p < Suc n\<close> have "p + (Suc n - p) = Suc n" by arith
    ultimately show ?thesis by (simp only:)
  qed
  ultimately show ?thesis by simp
qed

lemma replace_all_none:
  assumes "\<forall>i. i \<le> length w \<longrightarrow> ends r w i = {}"
  shows "replace_all r rep w = w"
proof -
  have "\<forall>i \<in> set [0 ..< Suc (length w)]. i < 0 \<or> rmatch r w i = []"
  proof
    fix i assume "i \<in> set [0 ..< Suc (length w)]"
    then have "i \<le> length w" by auto
    with assms have "ends r w i = {}" by blast
    then show "i < 0 \<or> rmatch r w i = []" by (simp add: rmatch_Nil_iff)
  qed
  then have "scan r w 0 [0 ..< Suc (length w)] = []" by (rule scan_nil)
  then show ?thesis by (simp only: replace_all_def replace_fn_def exec_all_def stitch.simps drop_0)
qed

lemma replace_all_once:
  assumes "p \<le> length w" and "ends r w p = {e}" and "\<forall>i. i < p \<longrightarrow> ends r w i = {}"
    and "\<forall>i. (if p < e then e else Suc p) \<le> i \<and> i \<le> length w \<longrightarrow> ends r w i = {}"
  shows "replace_all r rep w = take p w @ rep @ drop e w"
proof -
  let ?n = "if p < e then e else Suc p"
  from assms(2) have ne: "rmatch r w p \<noteq> []" by (auto simp: ends_def)
  then obtain x rest where x: "rmatch r w p = x # rest" by (cases "rmatch r w p") auto
  obtain c j where xc: "x = (c, j)" by (cases x)
  with x have "j \<in> ends r w p" by (force simp: ends_def)
  with assms(2) have "j = e" by simp
  with x xc have m: "rmatch r w p = (c, e) # rest" by simp
  from assms(1) have split: "[0 ..< Suc (length w)] = [0 ..< p] @ p # [Suc p ..< Suc (length w)]"
    by (rule upt_split)
  have before: "\<forall>i \<in> set [0 ..< p]. i < 0 \<or> rmatch r w i = []"
  proof
    fix i assume "i \<in> set [0 ..< p]"
    then have "i < p" by simp
    with assms(3) have "ends r w i = {}" by blast
    then show "i < 0 \<or> rmatch r w i = []" by (simp add: rmatch_Nil_iff)
  qed
  have after: "\<forall>i \<in> set [Suc p ..< Suc (length w)]. i < ?n \<or> rmatch r w i = []"
  proof
    fix i assume "i \<in> set [Suc p ..< Suc (length w)]"
    then have il: "i \<le> length w" by auto
    show "i < ?n \<or> rmatch r w i = []"
    proof (cases "i < ?n")
      case True
      then show ?thesis ..
    next
      case False
      then have "?n \<le> i" by simp
      with il assms(4) have "ends r w i = {}" by blast
      then show ?thesis by (simp add: rmatch_Nil_iff)
    qed
  qed
  have "scan r w 0 [0 ..< Suc (length w)] = scan r w 0 (p # [Suc p ..< Suc (length w)])"
    unfolding split by (rule scan_skip[OF before])
  also have "\<dots> = (p, c, e) # scan r w ?n [Suc p ..< Suc (length w)]"
    by (simp only: scan.simps m not_less_zero if_False list.case prod.case)
  also have "scan r w ?n [Suc p ..< Suc (length w)] = []"
    by (rule scan_nil[OF after])
  finally have "exec_all r w = [(p, c, e)]" by (simp only: exec_all_def)
  then show ?thesis by (simp add: replace_all_def replace_fn_def slice_def)
qed

lemma trim_decomp:
  "\<exists>l r. c = l @ trim c @ r \<and> (\<forall>x \<in> set l. is_space x) \<and> (\<forall>x \<in> set r. is_space x)"
proof -
  let ?l = "takeWhile is_space c"
  let ?m = "dropWhile is_space c"
  let ?r = "rev (takeWhile is_space (rev ?m))"
  have "rev ?m = takeWhile is_space (rev ?m) @ dropWhile is_space (rev ?m)" by simp
  then have "?m = rev (dropWhile is_space (rev ?m)) @ ?r"
    by (metis rev_append rev_rev_ident)
  then have "c = ?l @ trim c @ ?r"
    by (metis takeWhile_dropWhile_id trim_def)
  moreover have "\<forall>x \<in> set ?l. is_space x" by (auto dest: set_takeWhileD)
  moreover have "\<forall>x \<in> set ?r. is_space x" by (auto dest: set_takeWhileD)
  ultimately show ?thesis by blast
qed

lemma trim_id: "trimmed w \<Longrightarrow> trim w = w"
proof (cases w)
  case Nil
  then show ?thesis by (simp add: trim_def)
next
  case (Cons a as)
  assume "trimmed w"
  with Cons have h: "\<not> is_space (hd w)" and l: "\<not> is_space (last w)" by (auto simp: trimmed_def)
  from h Cons have "dropWhile is_space w = w" by simp
  moreover have "dropWhile is_space (rev w) = rev w"
  proof -
    from Cons have ne: "w \<noteq> []" by simp
    then have "hd (rev w) = last w" by (simp add: hd_rev)
    with l show ?thesis by (metis dropWhile_eq_self_iff)
  qed
  ultimately show ?thesis by (simp add: trim_def)
qed

lemma trimmed_trim: "trimmed (trim c)"
proof (cases "trim c = []")
  case True
  then show ?thesis by (simp add: trimmed_def)
next
  case False
  let ?m = "dropWhile is_space c"
  let ?d = "dropWhile is_space (rev ?m)"
  from False have d: "?d \<noteq> []" by (simp add: trim_def)
  then have hd_d: "\<not> is_space (hd ?d)" by (rule hd_dropWhile)
  have "last (trim c) = hd ?d" using d by (simp add: trim_def last_rev)
  with hd_d have l: "\<not> is_space (last (trim c))" by simp
  have "?m = [] \<Longrightarrow> ?d = []" by (metis dropWhile.simps(1) rev.simps(1))
  with d have m: "?m \<noteq> []" by blast
  then have hm: "\<not> is_space (hd ?m)" by (rule hd_dropWhile)
  obtain r where r: "?m = trim c @ r"
  proof -
    have "rev ?m = takeWhile is_space (rev ?m) @ ?d" by simp
    then have "?m = rev ?d @ rev (takeWhile is_space (rev ?m))"
      by (metis rev_append rev_rev_ident)
    then show ?thesis using that by (simp add: trim_def)
  qed
  with False have "hd ?m = hd (trim c)" by (metis hd_append2)
  with hm l show ?thesis by (simp add: trimmed_def)
qed

lemma trim_idem: "trim (trim c) = trim c"
  by (rule trim_id[OF trimmed_trim])

lemma trim_spaces_right:
  assumes "\<not> is_space x" and "\<forall>y \<in> set r. is_space y"
  shows "trim (a @ x # r) = dropWhile is_space a @ [x]"
proof -
  have "dropWhile is_space (a @ x # r) = dropWhile is_space a @ x # r"
    using assms(1) by (induction a) auto
  moreover have "dropWhile is_space (rev (dropWhile is_space a @ x # r))
                  = x # rev (dropWhile is_space a)"
  proof -
    have "rev (dropWhile is_space a @ x # r) = rev r @ x # rev (dropWhile is_space a)" by simp
    moreover have "dropWhile is_space (rev r @ x # rev (dropWhile is_space a))
                    = x # rev (dropWhile is_space a)"
      using assms by (simp add: dropWhile_append3)
    ultimately show ?thesis by simp
  qed
  ultimately show ?thesis by (simp add: trim_def)
qed

lemma trim_last:
  assumes "\<not> is_space x" and "\<forall>y \<in> set r. is_space y"
  shows "last (trim (a @ x # r)) = x"
  by (simp add: trim_spaces_right[OF assms])

lemma trim_front:
  assumes "\<not> is_space x"
  shows "\<exists>r'. trim (x # r) = x # r' \<and> set r' \<subseteq> set r"
proof -
  have "dropWhile is_space (x # r) = x # r" using assms by simp
  then have t: "trim (x # r) = rev (dropWhile is_space (rev r @ [x]))" by (simp add: trim_def)
  have "\<exists>q. dropWhile is_space (rev r @ [x]) = q @ [x] \<and> set q \<subseteq> set (rev r)"
  proof (induction "rev r" arbitrary: r)
    case Nil
    then show ?case using assms by simp
  next
    case (Cons y ys)
    then show ?case
    proof (cases "is_space y")
      case True
      from Cons(1)[of "rev ys"] obtain q where
        "dropWhile is_space (ys @ [x]) = q @ [x]" "set q \<subseteq> set ys" by auto
      with True Cons(2)[symmetric] show ?thesis by auto
    next
      case False
      with Cons(2)[symmetric] show ?thesis by auto
    qed
  qed
  then obtain q where q: "dropWhile is_space (rev r @ [x]) = q @ [x]" "set q \<subseteq> set (rev r)"
    by blast
  with t have "trim (x # r) = x # rev q" by simp
  with q show ?thesis by auto
qed

lemma run_le: "run_of P w i j \<Longrightarrow> i \<le> j \<and> j \<le> length w"
  by (simp add: run_of_def)

lemma run_trans: "run_of P w i j \<Longrightarrow> run_of P w j k \<Longrightarrow> run_of P w i k"
  unfolding run_of_def by (metis le_trans not_le)

lemma run_mono: "(\<And>c. P c \<Longrightarrow> Q c) \<Longrightarrow> run_of P w i j \<Longrightarrow> run_of Q w i j"
  unfolding run_of_def by blast

lemma run_split: "run_of P w i k \<Longrightarrow> i \<le> j \<Longrightarrow> j \<le> k \<Longrightarrow> run_of P w i j \<and> run_of P w j k"
  unfolding run_of_def by auto

lemma run_set: "run_of P w i j \<longleftrightarrow> i \<le> j \<and> j \<le> length w \<and> (\<forall>c \<in> set (slice w i j). P c)"
proof -
  have "(\<forall>c \<in> set (slice w i j). P c) \<longleftrightarrow> (\<forall>k. i \<le> k \<and> k < j \<longrightarrow> P (w ! k))"
    if le: "i \<le> j" "j \<le> length w"
  proof
    assume a: "\<forall>c \<in> set (slice w i j). P c"
    show "\<forall>k. i \<le> k \<and> k < j \<longrightarrow> P (w ! k)"
    proof (intro allI impI)
      fix k assume k: "i \<le> k \<and> k < j"
      then have k1: "i \<le> k" and k2: "k < j" by simp_all
      from k1 k2 le have "k - i < length (slice w i j)" by (simp add: slice_def)
      then have "slice w i j ! (k - i) \<in> set (slice w i j)" by (rule nth_mem)
      moreover from k1 k2 le have "slice w i j ! (k - i) = w ! k" by (simp add: slice_def)
      ultimately show "P (w ! k)" using a by auto
    qed
  next
    assume a: "\<forall>k. i \<le> k \<and> k < j \<longrightarrow> P (w ! k)"
    show "\<forall>c \<in> set (slice w i j). P c"
    proof
      fix c assume "c \<in> set (slice w i j)"
      then obtain n where n: "n < length (slice w i j)" "slice w i j ! n = c"
        by (auto simp: in_set_conv_nth)
      then have "n < j - i" using le by (simp add: slice_def)
      with n le have "c = w ! (i + n)" by (simp add: slice_def)
      with a \<open>n < j - i\<close> show "P c" by simp
    qed
  qed
  then show ?thesis unfolding run_of_def by blast
qed

lemma ends_Star_Sym_gen:
  "ends (Star (Sym P)) w i = (if i \<le> length w then {j. run_of P w i j} else {i})"
proof (cases "i \<le> length w")
  case True
  then show ?thesis by (simp add: ends_Star_Sym)
next
  case False
  then have "rmatch (Star (Sym P)) w i = [([], i)]"
    by (simp add: rmatch_Star[of "Sym P" w i])
  with False show ?thesis by (simp add: ends_def)
qed

lemma ends_Lazy_Sym_gen:
  "ends (Lazy (Sym P)) w i = (if i \<le> length w then {j. run_of P w i j} else {i})"
proof (cases "i \<le> length w")
  case True
  then show ?thesis by (simp add: ends_Lazy_Sym)
next
  case False
  then have "rmatch (Lazy (Sym P)) w i = [([], i)]"
    by (simp add: rmatch_Lazy[of "Sym P" w i])
  with False show ?thesis by (simp add: ends_def)
qed

lemma slice_single: "slice w k (Suc k) = [c] \<longleftrightarrow> k < length w \<and> w ! k = c"
proof (cases "k < length w")
  case True
  then have "slice w k (Suc k) = [w ! k]"
    by (simp add: slice_def take_Suc_conv_app_nth[of 0] Cons_nth_drop_Suc[symmetric])
  with True show ?thesis by simp
next
  case False
  then show ?thesis by (simp add: slice_def)
qed

lemma lower_char_tick: "lower_char c = CHR ''`'' \<longleftrightarrow> c = CHR ''`''"
proof
  assume a: "lower_char c = CHR ''`''"
  define n where "n = (of_char c :: nat)"
  have lt: "n < 256" unfolding n_def by simp
  show "c = CHR ''`''"
  proof (cases "(65 \<le> n \<and> n \<le> 90) \<or> (192 \<le> n \<and> n \<le> 222 \<and> n \<noteq> 215)")
    case True
    with a have "char_of (n + 32) = CHR ''`''"
      unfolding lower_char_def Let_def n_def by simp
    then have "(of_char (char_of (n + 32) :: char) :: nat) = of_char (CHR ''`'')"
      by (rule arg_cong)
    then have m: "(n + 32) mod 256 = 96" by (simp only: of_char_of) simp
    from True lt have "n + 32 < 256" by arith
    then have "(n + 32) mod 256 = n + 32" by simp
    with m have "n = 64" by arith
    with True show ?thesis by arith
  next
    case False
    with a show ?thesis unfolding lower_char_def Let_def n_def by simp
  qed
next
  assume "c = CHR ''`''"
  then show "lower_char c = CHR ''`''" by (simp add: lower_char_def)
qed

lemma map_lower_tick_Cons:
  "map lower_char x = CHR ''`'' # ys \<Longrightarrow> \<exists>x'. x = CHR ''`'' # x' \<and> map lower_char x' = ys"
proof (cases x)
  case Nil
  assume "map lower_char x = CHR ''`'' # ys"
  with Nil show ?thesis by simp
next
  case (Cons a as)
  assume "map lower_char x = CHR ''`'' # ys"
  with Cons have "lower_char a = CHR ''`''" and "map lower_char as = ys" by simp_all
  with Cons lower_char_tick[of a] show ?thesis by blast
qed

lemma lower_fence: "map lower_char ''```'' = ''```''"
  by (simp add: lower_char_def)

lemma toLowerCase_fence_prefix:
  assumes "toLowerCase x = toLowerCase (''```'' @ y)"
  shows "\<exists>x'. x = ''```'' @ x' \<and> toLowerCase x' = toLowerCase y"
proof -
  have "toLowerCase (''```'' @ y) = map lower_char ''```'' @ map lower_char y"
    by (simp only: toLowerCase_def map_append)
  also have "\<dots> = ''```'' @ map lower_char y"
    by (simp only: lower_fence)
  also have "\<dots> = CHR ''`'' # CHR ''`'' # CHR ''`'' # map lower_char y"
    by (simp only: append.simps)
  finally have "toLowerCase x = CHR ''`'' # CHR ''`'' # CHR ''`'' # map lower_char y"
    using assms by (simp only:)
  then have m: "map lower_char x = CHR ''`'' # CHR ''`'' # CHR ''`'' # map lower_char y"
    by (simp only: toLowerCase_def)
  from map_lower_tick_Cons[OF m] obtain x1 where
    x1: "x = CHR ''`'' # x1" and m1: "map lower_char x1 = CHR ''`'' # CHR ''`'' # map lower_char y"
    by (elim exE conjE)
  from map_lower_tick_Cons[OF m1] obtain x2 where
    x2: "x1 = CHR ''`'' # x2" and m2: "map lower_char x2 = CHR ''`'' # map lower_char y"
    by (elim exE conjE)
  from map_lower_tick_Cons[OF m2] obtain x3 where
    x3: "x2 = CHR ''`'' # x3" and m3: "map lower_char x3 = map lower_char y"
    by (elim exE conjE)
  have "x = ''```'' @ x3"
    by (simp only: x1 x2 x3 append.simps)
  moreover from m3 have "toLowerCase x3 = toLowerCase y"
    by (simp only: toLowerCase_def)
  ultimately show ?thesis by (intro exI[of _ x3] conjI)
qed

lemma toLowerCase_fence: "toLowerCase x = toLowerCase ''```'' \<longleftrightarrow> x = ''```''"
proof
  assume "toLowerCase x = toLowerCase ''```''"
  then have "toLowerCase x = toLowerCase (''```'' @ [])" by simp
  from toLowerCase_fence_prefix[OF this] obtain x' where
    "x = ''```'' @ x'" "toLowerCase x' = toLowerCase []" by blast
  then show "x = ''```''" by (simp add: toLowerCase_def)
next
  assume "x = ''```''"
  then show "toLowerCase x = toLowerCase ''```''" by simp
qed

lemma in_ends_Seq: "k \<in> ends (Seq a b) w i \<longleftrightarrow> (\<exists>j. j \<in> ends a w i \<and> k \<in> ends b w j)"
  by (simp only: ends_Seq UN_iff Bex_def)

lemma in_ends_Bol: "k \<in> ends Bol w i \<longleftrightarrow> i = 0 \<and> k = 0"
  by (auto simp: ends_Bol)

lemma in_ends_Eol: "k \<in> ends Eol w i \<longleftrightarrow> i = length w \<and> k = length w"
  by (auto simp: ends_Eol)

lemma in_ends_Lit: "k \<in> ends (Lit s) w i \<longleftrightarrow> slice w i (i + length s) = s \<and> k = i + length s"
  by (auto simp: ends_Lit)

lemma in_ends_LitCI:
  "k \<in> ends (LitCI s) w i \<longleftrightarrow>
     toLowerCase (slice w i (i + length s)) = toLowerCase s \<and> k = i + length s"
  by (auto simp: ends_LitCI)

lemma in_ends_Star: "k \<in> ends (Star (Sym P)) w i \<longleftrightarrow> (if i \<le> length w then run_of P w i k else k = i)"
  by (simp add: ends_Star_Sym_gen)

lemma in_ends_Lazy: "k \<in> ends (Lazy (Sym P)) w i \<longleftrightarrow> (if i \<le> length w then run_of P w i k else k = i)"
  by (simp add: ends_Lazy_Sym_gen)

lemma in_ends_Ahead: "k \<in> ends (Ahead a) w i \<longleftrightarrow> ends a w i \<noteq> {} \<and> k = i"
  by (auto simp: ends_Ahead)

lemma cat2: "cat [a, b] = Seq a b"
  by (simp add: cat_def)

lemma cat3: "cat [a, b, c] = Seq a (Seq b c)"
  by (simp add: cat_def)

lemma cat4: "cat [a, b, c, d] = Seq a (Seq b (Seq c d))"
  by (simp add: cat_def)

lemma ends_bounds: "i \<le> length w \<Longrightarrow> k \<in> ends r w i \<Longrightarrow> i \<le> k \<and> k \<le> length w"
  unfolding in_ends using rmatch_bounds by blast

lemma fence_json_prefix:
  assumes "k \<in> ends re_fence_json w i"
  shows "i = 0 \<and> prefix ''```'' w"
proof -
  from assms obtain j m where j: "j \<in> ends Bol w i"
    and m: "m \<in> ends (LitCI ''```json'') w j"
    unfolding re_fence_json_def cat3 in_ends_Seq by blast
  from j have i: "i = 0" and j0: "j = 0" by (simp_all only: in_ends_Bol)
  from m j0 have "toLowerCase (slice w 0 (0 + length ''```json'')) = toLowerCase ''```json''"
    by (simp only: in_ends_LitCI)
  then have "toLowerCase (slice w 0 (0 + length ''```json'')) = toLowerCase (''```'' @ ''json'')"
    by (simp only: append.simps)
  from toLowerCase_fence_prefix[OF this] obtain x' where
    "slice w 0 (0 + length ''```json'') = ''```'' @ x'" by blast
  then have "take (length ''```json'') w = ''```'' @ x'" by (simp only: slice_def drop_0 add_0 diff_zero)
  then have "w = (''```'' @ x') @ drop (length ''```json'') w"
    by (metis append_take_drop_id)
  then have "w = ''```'' @ (x' @ drop (length ''```json'') w)" by (simp only: append_assoc)
  then have "prefix ''```'' w" by (rule prefixI)
  with i show ?thesis by (rule conjI)
qed

lemma fence_open_prefix:
  assumes "k \<in> ends re_fence_open w i"
  shows "i = 0 \<and> prefix ''```'' w"
proof -
  from assms obtain j m where j: "j \<in> ends Bol w i"
    and m: "m \<in> ends (LitCI ''```'') w j"
    unfolding re_fence_open_def cat3 in_ends_Seq by blast
  from j have i: "i = 0" and j0: "j = 0" by (simp_all only: in_ends_Bol)
  from m j0 have "toLowerCase (slice w 0 (0 + length ''```'')) = toLowerCase ''```''"
    by (simp only: in_ends_LitCI)
  then have "slice w 0 (0 + length ''```'') = ''```''" by (simp only: toLowerCase_fence)
  then have "take (length ''```'') w = ''```''" by (simp only: slice_def drop_0 add_0 diff_zero)
  then have "w = ''```'' @ drop (length ''```'') w"
    by (metis append_take_drop_id)
  then have "prefix ''```'' w" by (rule prefixI)
  with i show ?thesis by (rule conjI)
qed

lemma no_fence_open:
  assumes "\<not> prefix ''```'' w"
  shows "replace_first re_fence_json [] w = w" and "replace_first re_fence_open [] w = w"
proof -
  from assms fence_json_prefix have "\<forall>i. i \<le> length w \<longrightarrow> ends re_fence_json w i = {}" by blast
  then show "replace_first re_fence_json [] w = w" by (rule replace_first_none)
  from assms fence_open_prefix have "\<forall>i. i \<le> length w \<longrightarrow> ends re_fence_open w i = {}" by blast
  then show "replace_first re_fence_open [] w = w" by (rule replace_first_none)
qed

lemma slice_bound:
  assumes "slice w j (j + length s) = s" and "s \<noteq> []"
  shows "j + length s \<le> length w"
proof -
  from assms(1) have "length (slice w j (j + length s)) = length s" by (rule arg_cong)
  then have "min (length w - j) (length s) = length s" by (simp add: slice_def)
  moreover from assms(2) have "0 < length s" by simp
  ultimately show ?thesis by arith
qed

lemma fence_len: "length ''```'' = 3"
  by simp

lemma in_ends_fence_close:
  "k \<in> ends re_fence_close w i \<longleftrightarrow>
     (\<exists>j. run_of is_space w i j \<and> slice w j (j + 3) = ''```'' \<and> run_of is_space w (j + 3) (length w))
     \<and> k = length w"
proof
  assume "k \<in> ends re_fence_close w i"
  then obtain j m n where j: "j \<in> ends (Star (Sym is_space)) w i"
    and m: "m \<in> ends (LitCI ''```'') w j"
    and n: "n \<in> ends (Star (Sym is_space)) w m"
    and k: "k \<in> ends Eol w n"
    unfolding re_fence_close_def cat4 in_ends_Seq by blast
  from m have sl: "slice w j (j + 3) = ''```''" and m3: "m = j + 3"
    by (simp_all only: in_ends_LitCI toLowerCase_fence fence_len)
  have "j + length ''```'' \<le> length w"
    by (rule slice_bound) (simp_all only: fence_len sl, simp)
  then have jb: "j + 3 \<le> length w" by (simp only: fence_len)
  from k have kn: "n = length w" "k = length w" by (simp_all only: in_ends_Eol)
  from n m3 jb kn have s2: "run_of is_space w (j + 3) (length w)"
    by (simp add: in_ends_Star)
  have s1: "run_of is_space w i j"
  proof (cases "i \<le> length w")
    case True
    with j show ?thesis by (simp add: in_ends_Star)
  next
    case False
    with j have "j = i" by (simp add: in_ends_Star)
    with False jb show ?thesis by simp
  qed
  from s1 sl s2 kn show "(\<exists>j. run_of is_space w i j \<and> slice w j (j + 3) = ''```''
      \<and> run_of is_space w (j + 3) (length w)) \<and> k = length w" by blast
next
  assume "(\<exists>j. run_of is_space w i j \<and> slice w j (j + 3) = ''```''
      \<and> run_of is_space w (j + 3) (length w)) \<and> k = length w"
  then obtain j where s1: "run_of is_space w i j" and sl: "slice w j (j + 3) = ''```''"
    and s2: "run_of is_space w (j + 3) (length w)" and k: "k = length w" by blast
  from s1 have ib: "i \<le> length w" by (auto dest: run_le)
  from s2 have jb: "j + 3 \<le> length w" by (auto dest: run_le)
  from s1 ib have a: "j \<in> ends (Star (Sym is_space)) w i" by (simp add: in_ends_Star)
  from sl have b: "j + 3 \<in> ends (LitCI ''```'') w j"
    by (simp only: in_ends_LitCI toLowerCase_fence fence_len)
  from s2 jb have c: "length w \<in> ends (Star (Sym is_space)) w (j + 3)"
    by (simp add: in_ends_Star)
  have d: "length w \<in> ends Eol w (length w)" by (simp only: in_ends_Eol)
  from a b c d k show "k \<in> ends re_fence_close w i"
    unfolding re_fence_close_def cat4 in_ends_Seq by blast
qed

lemma in_ends_fence_close_strict:
  "k \<in> ends re_fence_close_strict w i \<longleftrightarrow>
     (\<exists>j. run_of is_space w i j \<and> slice w j (j + 3) = ''```'' \<and> j + 3 = length w)
     \<and> k = length w"
proof
  assume "k \<in> ends re_fence_close_strict w i"
  then obtain j m where j: "j \<in> ends (Star (Sym is_space)) w i"
    and m: "m \<in> ends (LitCI ''```'') w j"
    and k: "k \<in> ends Eol w m"
    unfolding re_fence_close_strict_def cat3 in_ends_Seq by blast
  from m have sl: "slice w j (j + 3) = ''```''" and m3: "m = j + 3"
    by (simp_all only: in_ends_LitCI toLowerCase_fence fence_len)
  have "j + length ''```'' \<le> length w"
    by (rule slice_bound) (simp_all only: fence_len sl, simp)
  then have jb: "j + 3 \<le> length w" by (simp only: fence_len)
  from k m3 have kn: "j + 3 = length w" "k = length w" by (simp_all only: in_ends_Eol)
  have s1: "run_of is_space w i j"
  proof (cases "i \<le> length w")
    case True
    with j show ?thesis by (simp add: in_ends_Star)
  next
    case False
    with j have "j = i" by (simp add: in_ends_Star)
    with False jb show ?thesis by simp
  qed
  from s1 sl kn show "(\<exists>j. run_of is_space w i j \<and> slice w j (j + 3) = ''```''
      \<and> j + 3 = length w) \<and> k = length w" by blast
next
  assume "(\<exists>j. run_of is_space w i j \<and> slice w j (j + 3) = ''```''
      \<and> j + 3 = length w) \<and> k = length w"
  then obtain j where s1: "run_of is_space w i j" and sl: "slice w j (j + 3) = ''```''"
    and jb: "j + 3 = length w" and k: "k = length w" by blast
  from s1 have ib: "i \<le> length w" by (auto dest: run_le)
  from s1 ib have a: "j \<in> ends (Star (Sym is_space)) w i" by (simp add: in_ends_Star)
  from sl have b: "j + 3 \<in> ends (LitCI ''```'') w j"
    by (simp only: in_ends_LitCI toLowerCase_fence fence_len)
  from jb have d: "length w \<in> ends Eol w (j + 3)" by (simp only: in_ends_Eol)
  from a b d k show "k \<in> ends re_fence_close_strict w i"
    unfolding re_fence_close_strict_def cat3 in_ends_Seq by blast
qed

lemma run_nth: "run_of P w i j \<Longrightarrow> i \<le> k \<Longrightarrow> k < j \<Longrightarrow> P (w ! k)"
  unfolding run_of_def by blast

lemma tick_not_space: "\<not> is_space (CHR ''`'')"
  by (simp add: is_space_def)

lemma slice_fence_last:
  assumes "slice w j (j + 3) = ''```''"
  shows "w ! (j + 2) = CHR ''`''" and "j + 3 \<le> length w"
proof -
  have "j + length ''```'' \<le> length w"
    by (rule slice_bound) (simp_all only: fence_len assms, simp)
  then show b: "j + 3 \<le> length w" by (simp only: fence_len)
  have "slice w j (j + 3) ! 2 = w ! (j + 2)" using b by (simp add: slice_def)
  moreover have "''```'' ! 2 = CHR ''`''" by simp
  ultimately show "w ! (j + 2) = CHR ''`''" using assms by simp
qed

lemma run_last_space:
  assumes "run_of is_space w m (length w)" and "m < length w"
  shows "is_space (last w)"
proof -
  from assms(2) have ne: "w \<noteq> []" by auto
  then have "last w = w ! (length w - 1)" by (rule last_conv_nth)
  moreover from assms(2) have "m \<le> length w - 1" "length w - 1 < length w" by simp_all
  with assms(1) have "is_space (w ! (length w - 1))" by (rule run_nth)
  ultimately show ?thesis by simp
qed

lemma fence_close_end:
  assumes "k \<in> ends re_fence_close w i" and "w = [] \<or> \<not> is_space (last w)"
  shows "suffix ''```'' w"
proof -
  from assms(1) obtain j where sl: "slice w j (j + 3) = ''```''"
    and s2: "run_of is_space w (j + 3) (length w)"
    unfolding in_ends_fence_close by blast
  from slice_fence_last[OF sl] have jb: "j + 3 \<le> length w" by simp
  have "j + 3 = length w"
  proof (rule ccontr)
    assume "j + 3 \<noteq> length w"
    with jb have lt: "j + 3 < length w" by simp
    from run_last_space[OF s2 lt] have "is_space (last w)" .
    moreover from lt have "w \<noteq> []" by auto
    ultimately show False using assms(2) by simp
  qed
  with sl have "drop j w = ''```''" by (simp add: slice_def)
  then have "w = take j w @ ''```''" by (metis append_take_drop_id)
  then show ?thesis by (rule suffixI)
qed

lemma no_fence_close:
  assumes "trimmed w" and "\<not> suffix ''```'' w"
  shows "replace_first re_fence_close [] w = w"
proof -
  from assms(1) have "w = [] \<or> \<not> is_space (last w)" by (auto simp: trimmed_def)
  with assms(2) fence_close_end have "\<forall>i. i \<le> length w \<longrightarrow> ends re_fence_close w i = {}"
    by blast
  then show ?thesis by (rule replace_first_none)
qed

lemma fence_close_same:
  assumes "w \<noteq> []" and "\<not> is_space (last w)"
  shows "ends re_fence_close w i = ends re_fence_close_strict w i"
proof (rule set_eqI)
  fix k
  have "(\<exists>j. run_of is_space w i j \<and> slice w j (j + 3) = ''```'' \<and> run_of is_space w (j + 3) (length w))
        \<longleftrightarrow> (\<exists>j. run_of is_space w i j \<and> slice w j (j + 3) = ''```'' \<and> j + 3 = length w)"
  proof
    assume "\<exists>j. run_of is_space w i j \<and> slice w j (j + 3) = ''```'' \<and> run_of is_space w (j + 3) (length w)"
    then obtain j where s1: "run_of is_space w i j" and sl: "slice w j (j + 3) = ''```''"
      and s2: "run_of is_space w (j + 3) (length w)" by blast
    from slice_fence_last[OF sl] have jb: "j + 3 \<le> length w" by simp
    have "j + 3 = length w"
    proof (rule ccontr)
      assume "j + 3 \<noteq> length w"
      with jb have lt: "j + 3 < length w" by simp
      from run_last_space[OF s2 lt] assms(2) show False by simp
    qed
    with s1 sl show "\<exists>j. run_of is_space w i j \<and> slice w j (j + 3) = ''```'' \<and> j + 3 = length w"
      by blast
  next
    assume "\<exists>j. run_of is_space w i j \<and> slice w j (j + 3) = ''```'' \<and> j + 3 = length w"
    then obtain j where s1: "run_of is_space w i j" and sl: "slice w j (j + 3) = ''```''"
      and e: "j + 3 = length w" by blast
    from e have "run_of is_space w (j + 3) (length w)" by (simp add: run_refl)
    with s1 sl show "\<exists>j. run_of is_space w i j \<and> slice w j (j + 3) = ''```''
        \<and> run_of is_space w (j + 3) (length w)" by blast
  qed
  then show "k \<in> ends re_fence_close w i \<longleftrightarrow> k \<in> ends re_fence_close_strict w i"
    unfolding in_ends_fence_close in_ends_fence_close_strict by simp
qed

lemma fence_close_trim_last:
  assumes "k \<in> ends re_fence_close w i"
  shows "trim w \<noteq> [] \<and> last (trim w) = CHR ''`''"
proof -
  from assms obtain j where sl: "slice w j (j + 3) = ''```''"
    and s2: "run_of is_space w (j + 3) (length w)"
    unfolding in_ends_fence_close by blast
  from slice_fence_last[OF sl] have t: "w ! (j + 2) = CHR ''`''" and jb: "j + 3 \<le> length w"
    by simp_all
  from jb have lt: "j + 2 < length w" by simp
  have w: "w = take (j + 2) w @ CHR ''`'' # drop (j + 3) w"
  proof -
    from lt have "w = take (j + 2) w @ w ! (j + 2) # drop (Suc (j + 2)) w"
      by (rule id_take_nth_drop)
    with t show ?thesis by (simp add: numeral_3_eq_3)
  qed
  from s2 have "\<forall>c \<in> set (slice w (j + 3) (length w)). is_space c"
    by (simp add: run_set)
  then have sp: "\<forall>y \<in> set (drop (j + 3) w). is_space y" by (simp add: slice_def)
  from trim_spaces_right[OF tick_not_space sp, of "take (j + 2) w"] w
  have "trim w = dropWhile is_space (take (j + 2) w) @ [CHR ''`'']" by simp
  then show ?thesis by simp
qed

lemma replace_first_same_ends:
  assumes same: "\<forall>i. ends r1 w i = ends r2 w i"
    and one: "\<forall>i k. k \<in> ends r1 w i \<longrightarrow> k = e0"
  shows "replace_first r1 rep w = replace_first r2 rep w"
proof (cases "\<exists>p. p \<le> length w \<and> ends r1 w p \<noteq> {}")
  case False
  then have n1: "\<forall>i. i \<le> length w \<longrightarrow> ends r1 w i = {}" by blast
  with same have n2: "\<forall>i. i \<le> length w \<longrightarrow> ends r2 w i = {}" by simp
  from replace_first_none[OF n1] replace_first_none[OF n2] show ?thesis by simp
next
  case True
  define Q where "Q p = (p \<le> length w \<and> ends r1 w p \<noteq> {})" for p
  from True have "\<exists>p. Q p" by (simp add: Q_def)
  then obtain p where p: "Q p" and least: "\<forall>i. i < p \<longrightarrow> \<not> Q i"
    by (metis exists_least_iff)
  from p have pb: "p \<le> length w" and ne: "ends r1 w p \<noteq> {}" by (simp_all add: Q_def)
  from ne one have e1: "ends r1 w p = {e0}" by blast
  with same have e2: "ends r2 w p = {e0}" by simp
  have l1: "\<forall>i. i < p \<longrightarrow> ends r1 w i = {}"
  proof (intro allI impI)
    fix i assume "i < p"
    with least pb show "ends r1 w i = {}" by (auto simp: Q_def)
  qed
  with same have l2: "\<forall>i. i < p \<longrightarrow> ends r2 w i = {}" by simp
  from replace_first_at[OF pb e1 l1] replace_first_at[OF pb e2 l2] show ?thesis by simp
qed

lemma space_word_or_space: "is_space c \<Longrightarrow> word_or_space c"
  by (simp add: word_or_space_def)

lemma brace_len: "length ''{'' = 1" "length ''}'' = 1"
  by simp_all

lemma in_ends_text_before:
  "k \<in> ends re_text_before w i \<longleftrightarrow>
     i = 0 \<and> run_of word_or_space w 0 k \<and> k < length w \<and> w ! k = CHR ''{''"
proof
  assume "k \<in> ends re_text_before w i"
  then obtain a j m where a: "a \<in> ends Bol w i"
    and j: "j \<in> ends (Star (Sym is_space)) w a"
    and m: "m \<in> ends (Lazy (Sym word_or_space)) w j"
    and k: "k \<in> ends (Ahead (Lit ''{'')) w m"
    unfolding re_text_before_def cat4 in_ends_Seq by blast
  from a have i0: "i = 0" and a0: "a = 0" by (simp_all only: in_ends_Bol)
  from j a0 have s1: "run_of is_space w 0 j" by (simp add: in_ends_Star)
  then have jb: "j \<le> length w" by (auto dest: run_le)
  with m have s2: "run_of word_or_space w j m" by (simp add: in_ends_Lazy)
  from k have "ends (Lit ''{'') w m \<noteq> {} \<and> k = m" by (rule iffD1[OF in_ends_Ahead])
  then have km: "k = m" and "ends (Lit ''{'') w m \<noteq> {}" by blast+
  then obtain x where "x \<in> ends (Lit ''{'') w m" by blast
  then have "slice w m (m + 1) = ''{''" by (simp only: in_ends_Lit brace_len)
  then have "slice w m (Suc m) = [CHR ''{'']" by simp
  then have b: "m < length w \<and> w ! m = CHR ''{''" by (simp only: slice_single)
  from s1 have "run_of word_or_space w 0 j" by (rule run_mono[rotated]) (rule space_word_or_space)
  from run_trans[OF this s2] have "run_of word_or_space w 0 m" .
  with i0 km b show "i = 0 \<and> run_of word_or_space w 0 k \<and> k < length w \<and> w ! k = CHR ''{''"
    by simp
next
  assume h: "i = 0 \<and> run_of word_or_space w 0 k \<and> k < length w \<and> w ! k = CHR ''{''"
  then have "slice w k (Suc k) = [CHR ''{'']" by (simp only: slice_single)
  then have "slice w k (k + length ''{'') = ''{''" by simp
  then have "k + length ''{'' \<in> ends (Lit ''{'') w k" by (simp only: in_ends_Lit)
  then have "ends (Lit ''{'') w k \<noteq> {}" by blast
  then have d: "k \<in> ends (Ahead (Lit ''{'')) w k" by (simp add: in_ends_Ahead)
  have a: "0 \<in> ends Bol w i" using h by (simp only: in_ends_Bol)
  have b: "0 \<in> ends (Star (Sym is_space)) w 0" by (simp add: in_ends_Star run_refl)
  from h have c: "k \<in> ends (Lazy (Sym word_or_space)) w 0" by (simp add: in_ends_Lazy)
  from a b c d show "k \<in> ends re_text_before w i"
    unfolding re_text_before_def cat4 in_ends_Seq by blast
qed

lemma in_ends_text_after:
  "k \<in> ends re_text_after w i \<longleftrightarrow>
     i < length w \<and> w ! i = CHR ''}'' \<and> run_of word_or_space w (Suc i) (length w) \<and> k = length w"
proof
  assume "k \<in> ends re_text_after w i"
  then obtain a j m where a: "a \<in> ends (Lit ''}'') w i"
    and j: "j \<in> ends (Star (Sym is_space)) w a"
    and m: "m \<in> ends (Star (Sym word_or_space)) w j"
    and k: "k \<in> ends Eol w m"
    unfolding re_text_after_def cat4 in_ends_Seq by blast
  from a have "slice w i (i + 1) = ''}''" and a1: "a = i + 1" by (simp_all only: in_ends_Lit brace_len)
  then have "slice w i (Suc i) = [CHR ''}'']" by simp
  then have b: "i < length w" "w ! i = CHR ''}''" by (simp_all only: slice_single)
  from b a1 have ab: "a \<le> length w" by simp
  with j have s1: "run_of is_space w a j" by (simp add: in_ends_Star)
  then have jb: "j \<le> length w" by (auto dest: run_le)
  with m have s2: "run_of word_or_space w j m" by (simp add: in_ends_Star)
  from k have km: "m = length w" "k = length w" by (simp_all only: in_ends_Eol)
  from s1 have "run_of word_or_space w a j" by (rule run_mono[rotated]) (rule space_word_or_space)
  from run_trans[OF this s2] have "run_of word_or_space w a m" .
  with a1 km b show "i < length w \<and> w ! i = CHR ''}'' \<and> run_of word_or_space w (Suc i) (length w)
      \<and> k = length w" by simp
next
  assume h: "i < length w \<and> w ! i = CHR ''}'' \<and> run_of word_or_space w (Suc i) (length w)
      \<and> k = length w"
  then have "slice w i (Suc i) = [CHR ''}'']" by (simp only: slice_single)
  then have "slice w i (i + length ''}'') = ''}''" by simp
  then have a: "i + length ''}'' \<in> ends (Lit ''}'') w i" by (simp only: in_ends_Lit)
  from h have sb: "Suc i \<le> length w" by simp
  then have b: "Suc i \<in> ends (Star (Sym is_space)) w (Suc i)" by (simp add: in_ends_Star run_refl)
  from h sb have c: "length w \<in> ends (Star (Sym word_or_space)) w (Suc i)" by (simp add: in_ends_Star)
  have d: "length w \<in> ends Eol w (length w)" by (simp only: in_ends_Eol)
  from a have a': "Suc i \<in> ends (Lit ''}'') w i" by simp
  from a' b c d h show "k \<in> ends re_text_after w i"
    unfolding re_text_after_def cat4 in_ends_Seq by blast
qed

lemma brace_not_wos: "\<not> word_or_space (CHR ''{'')" "\<not> word_or_space (CHR ''}'')"
  by (simp_all add: word_or_space_def is_word_def is_space_def)

lemma brace_not_space: "\<not> is_space (CHR ''{'')" "\<not> is_space (CHR ''}'')"
  by (simp_all add: is_space_def)

lemma run_prefix:
  assumes "\<forall>c \<in> set p. P c"
  shows "run_of P (p @ r) 0 (length p)"
proof -
  have "slice (p @ r) 0 (length p) = p" by (simp add: slice_def)
  with assms show ?thesis by (simp add: run_set)
qed

lemma run_suffix:
  assumes "\<forall>c \<in> set y. P c"
  shows "run_of P (x @ y) (length x) (length (x @ y))"
proof -
  have "slice (x @ y) (length x) (length (x @ y)) = y" by (simp add: slice_def)
  with assms show ?thesis by (simp add: run_set)
qed

lemma run_take:
  assumes "run_of P w 0 k"
  shows "\<forall>c \<in> set (take k w). P c"
proof -
  have "slice w 0 k = take k w" by (simp add: slice_def)
  with assms show ?thesis by (simp add: run_set)
qed

lemma run_drop:
  assumes "run_of P w k (length w)"
  shows "\<forall>c \<in> set (drop k w). P c"
proof -
  have "slice w k (length w) = drop k w" by (simp add: slice_def)
  with assms show ?thesis by (simp add: run_set)
qed

lemma text_before_strip:
  assumes "\<forall>c \<in> set p. word_or_space c"
  shows "replace_all re_text_before [] (p @ CHR ''{'' # rest) = CHR ''{'' # rest"
proof -
  let ?w = "p @ CHR ''{'' # rest"
  have at: "?w ! length p = CHR ''{''" by simp
  have lt: "length p < length ?w" by simp
  have e: "ends re_text_before ?w 0 = {length p}"
  proof (rule set_eqI)
    fix k
    show "k \<in> ends re_text_before ?w 0 \<longleftrightarrow> k \<in> {length p}"
    proof
      assume "k \<in> ends re_text_before ?w 0"
      then have s: "run_of word_or_space ?w 0 k" and kl: "k < length ?w" and kb: "?w ! k = CHR ''{''"
        by (simp_all add: in_ends_text_before)
      have "k = length p"
      proof (rule ccontr)
        assume ne: "k \<noteq> length p"
        show False
        proof (cases "k < length p")
          case True
          then have "?w ! k = p ! k" by (simp add: nth_append)
          with kb True have "CHR ''{'' \<in> set p" by (metis nth_mem)
          with assms brace_not_wos(1) show False by blast
        next
          case False
          with ne have "length p < k" by simp
          from run_nth[OF s _ this] have "word_or_space (?w ! length p)" by simp
          with at brace_not_wos(1) show False by simp
        qed
      qed
      then show "k \<in> {length p}" by simp
    next
      assume "k \<in> {length p}"
      then have k: "k = length p" by simp
      from run_prefix[OF assms, of "CHR ''{'' # rest"] at lt k
      show "k \<in> ends re_text_before ?w 0" by (simp add: in_ends_text_before)
    qed
  qed
  have none: "\<forall>i. (if 0 < length p then length p else Suc 0) \<le> i \<and> i \<le> length ?w
                  \<longrightarrow> ends re_text_before ?w i = {}"
  proof (intro allI impI)
    fix i assume a: "(if 0 < length p then length p else Suc 0) \<le> i \<and> i \<le> length ?w"
    have "i \<noteq> 0"
    proof (cases "0 < length p")
      case True
      with a have "length p \<le> i" by (simp only: if_True)
      with True show ?thesis by arith
    next
      case False
      with a have "Suc 0 \<le> i" by (simp only: if_False)
      then show ?thesis by arith
    qed
    then show "ends re_text_before ?w i = {}" by (auto simp: in_ends_text_before)
  qed
  have "replace_all re_text_before [] ?w = take 0 ?w @ [] @ drop (length p) ?w"
    by (rule replace_all_once[OF _ e _ none]) simp_all
  then show ?thesis by simp
qed

lemma text_before_id:
  assumes "\<not> (\<exists>p rest. w = p @ CHR ''{'' # rest \<and> (\<forall>c \<in> set p. word_or_space c))"
  shows "replace_all re_text_before [] w = w"
proof (rule replace_all_none, intro allI impI)
  fix i assume "i \<le> length w"
  show "ends re_text_before w i = {}"
  proof (rule ccontr)
    assume "ends re_text_before w i \<noteq> {}"
    then obtain k where "k \<in> ends re_text_before w i" by blast
    then have s: "run_of word_or_space w 0 k" and kl: "k < length w" and kb: "w ! k = CHR ''{''"
      by (simp_all add: in_ends_text_before)
    from kl have "w = take k w @ w ! k # drop (Suc k) w" by (rule id_take_nth_drop)
    with kb have "w = take k w @ CHR ''{'' # drop (Suc k) w" by simp
    with run_take[OF s] assms show False by blast
  qed
qed

lemma text_after_strip:
  assumes "\<forall>c \<in> set y. word_or_space c"
  shows "replace_all re_text_after ''}'' (x @ CHR ''}'' # y) = x @ ''}''"
proof -
  let ?w = "x @ CHR ''}'' # y"
  have at: "?w ! length x = CHR ''}''" by simp
  have lt: "length x < length ?w" by simp
  have sp: "run_of word_or_space ?w (Suc (length x)) (length ?w)"
    using run_suffix[OF assms, of "x @ [CHR ''}'']"] by simp
  have e: "ends re_text_after ?w (length x) = {length ?w}"
    using at lt sp by (auto simp: in_ends_text_after)
  have before: "\<forall>i. i < length x \<longrightarrow> ends re_text_after ?w i = {}"
  proof (intro allI impI)
    fix i assume i: "i < length x"
    show "ends re_text_after ?w i = {}"
    proof (rule ccontr)
      assume "ends re_text_after ?w i \<noteq> {}"
      then obtain k where "k \<in> ends re_text_after ?w i" by blast
      then have "run_of word_or_space ?w (Suc i) (length ?w)" by (simp add: in_ends_text_after)
      moreover from i have "Suc i \<le> length x" by simp
      ultimately have "word_or_space (?w ! length x)" using lt by (rule run_nth)
      with at brace_not_wos(2) show False by simp
    qed
  qed
  have after: "\<forall>i. (if length x < length ?w then length ?w else Suc (length x)) \<le> i \<and> i \<le> length ?w
                  \<longrightarrow> ends re_text_after ?w i = {}"
  proof (intro allI impI)
    fix i assume "(if length x < length ?w then length ?w else Suc (length x)) \<le> i \<and> i \<le> length ?w"
    with lt have "\<not> i < length ?w" by simp
    then show "ends re_text_after ?w i = {}" by (auto simp: in_ends_text_after)
  qed
  have "replace_all re_text_after ''}'' ?w = take (length x) ?w @ ''}'' @ drop (length ?w) ?w"
    by (rule replace_all_once[OF _ e before after]) simp
  then show ?thesis by simp
qed

lemma text_after_id:
  assumes "\<not> (\<exists>x y. w = x @ CHR ''}'' # y \<and> (\<forall>c \<in> set y. word_or_space c))"
  shows "replace_all re_text_after ''}'' w = w"
proof (rule replace_all_none, intro allI impI)
  fix i assume "i \<le> length w"
  show "ends re_text_after w i = {}"
  proof (rule ccontr)
    assume "ends re_text_after w i \<noteq> {}"
    then obtain k where "k \<in> ends re_text_after w i" by blast
    then have il: "i < length w" and ib: "w ! i = CHR ''}''"
      and s: "run_of word_or_space w (Suc i) (length w)"
      by (simp_all add: in_ends_text_after)
    from il have "w = take i w @ w ! i # drop (Suc i) w" by (rule id_take_nth_drop)
    with ib have "w = take i w @ CHR ''}'' # drop (Suc i) w" by simp
    with run_drop[OF s] assms show False by blast
  qed
qed

lemma cleanJsonResponse_isolate:
  "cleanJsonResponse response =
     (if response = [] then response
      else isolate (trim (replace_first re_fence_close []
                           (replace_first re_fence_open []
                             (replace_first re_fence_json [] response)))))"
  by (simp add: cleanJsonResponse_def isolate_def json_span_def Let_def)

lemma indexOf_first:
  assumes "c \<in> set s"
  shows "\<exists>p r. s = p @ c # r \<and> c \<notin> set p \<and> indexOf c s = Some (length p)"
proof -
  from split_list_first[OF assms] obtain p r where s: "s = p @ c # r" and n: "c \<notin> set p"
    by blast
  have "takeWhile (\<lambda>x. x \<noteq> c) (p @ c # r) = takeWhile (\<lambda>x. x \<noteq> c) p"
    by (rule takeWhile_tail) simp
  moreover from n have "takeWhile (\<lambda>x. x \<noteq> c) p = p"
    by (auto simp: takeWhile_eq_all_conv)
  ultimately have "takeWhile (\<lambda>x. x \<noteq> c) (p @ c # r) = p" by simp
  with s assms have "indexOf c s = Some (length p)" by (simp add: indexOf_def)
  with s n show ?thesis by blast
qed

lemma lastIndexOf_last:
  assumes "c \<in> set s"
  shows "\<exists>x q. s = x @ c # q \<and> c \<notin> set q \<and> lastIndexOf c s = Some (length x)"
proof -
  from split_list_last[OF assms] obtain x q where s: "s = x @ c # q" and n: "c \<notin> set q"
    by blast
  have "rev s = rev q @ c # rev x" using s by simp
  moreover have "takeWhile (\<lambda>y. y \<noteq> c) (rev q @ c # rev x) = rev q"
  proof -
    have "takeWhile (\<lambda>y. y \<noteq> c) (rev q @ c # rev x) = takeWhile (\<lambda>y. y \<noteq> c) (rev q)"
      by (rule takeWhile_tail) simp
    moreover from n have "takeWhile (\<lambda>y. y \<noteq> c) (rev q) = rev q"
      by (auto simp: takeWhile_eq_all_conv)
    ultimately show ?thesis by simp
  qed
  ultimately have "length (takeWhile (\<lambda>y. y \<noteq> c) (rev s)) = length q" by simp
  moreover from s have "length s - Suc (length q) = length x" by simp
  ultimately have "lastIndexOf c s = Some (length x)" using assms by (simp add: lastIndexOf_def)
  with s n show ?thesis by blast
qed

lemma first_before:
  assumes "s = p @ c # r" and "c \<notin> set p" and "s = u @ c # v"
  shows "length p \<le> length u"
proof (rule ccontr)
  assume "\<not> length p \<le> length u"
  then have lt: "length u < length p" by simp
  from assms(1,3) have "p ! length u = (u @ c # v) ! length u"
    using lt by (metis nth_append)
  then have "p ! length u = c" by simp
  with lt have "c \<in> set p" by (metis nth_mem)
  with assms(2) show False ..
qed

lemma last_after:
  assumes "s = x @ c # q" and "c \<notin> set q" and "s = u @ c # v"
  shows "length u \<le> length x"
proof -
  from assms(1) have "rev s = rev q @ c # rev x" by simp
  moreover from assms(2) have "c \<notin> set (rev q)" by simp
  moreover from assms(3) have "rev s = rev v @ c # rev u" by simp
  ultimately have "length (rev q) \<le> length (rev v)" by (rule first_before)
  then have "length q \<le> length v" by simp
  moreover from assms(1,3) have "length x + length q = length u + length v"
    by (metis add_Suc_right length_Cons length_append nat.inject)
  ultimately show ?thesis by arith
qed

lemma json_span_cases:
  "(\<not> has_object c \<and> json_span c = c)
   \<or> (\<exists>p m q. c = p @ CHR ''{'' # m @ CHR ''}'' # q \<and> json_span c = CHR ''{'' # m @ ''}'')"
proof (cases "CHR ''{'' \<in> set c \<and> CHR ''}'' \<in> set c")
  case False
  then have i: "indexOf CHR ''{'' c = None \<or> lastIndexOf CHR ''}'' c = None"
    by (auto simp: indexOf_def lastIndexOf_def)
  then have "json_span c = c" by (auto simp: json_span_def split: option.splits)
  moreover from False have "\<not> has_object c" by (auto simp: has_object_def)
  ultimately show ?thesis by blast
next
  case True
  then have o: "CHR ''{'' \<in> set c" and cl: "CHR ''}'' \<in> set c" by simp_all
  from indexOf_first[OF o] obtain p r where
    p: "c = p @ CHR ''{'' # r" and pn: "CHR ''{'' \<notin> set p"
    and pi: "indexOf CHR ''{'' c = Some (length p)" by blast
  from lastIndexOf_last[OF cl] obtain x q where
    x: "c = x @ CHR ''}'' # q" and qn: "CHR ''}'' \<notin> set q"
    and xi: "lastIndexOf CHR ''}'' c = Some (length x)" by blast
  show ?thesis
  proof (cases "length p \<le> length x")
    case le: True
    have ne: "length p \<noteq> length x"
    proof
      assume e: "length p = length x"
      from p have "c ! length p = CHR ''{''" by simp
      moreover from x e have "c ! length p = CHR ''}''" by simp
      ultimately show False by simp
    qed
    with le have lt: "length p < length x" by simp
    from p x have eq: "p @ CHR ''{'' # r = x @ CHR ''}'' # q" by simp
    from eq lt obtain m where m: "x = p @ CHR ''{'' # m"
    proof -
      from eq obtain us where "(p = x @ us \<and> us @ CHR ''{'' # r = CHR ''}'' # q)
          \<or> (p @ us = x \<and> CHR ''{'' # r = us @ CHR ''}'' # q)"
        by (auto simp: append_eq_append_conv2)
      then show ?thesis
      proof
        assume "p = x @ us \<and> us @ CHR ''{'' # r = CHR ''}'' # q"
        with lt show ?thesis by simp
      next
        assume a: "p @ us = x \<and> CHR ''{'' # r = us @ CHR ''}'' # q"
        with lt have "us \<noteq> []" by auto
        then obtain u us' where "us = u # us'" by (cases us) auto
        with a have "u = CHR ''{''" by simp
        with a \<open>us = u # us'\<close> have "x = p @ CHR ''{'' # us'" by simp
        then show ?thesis by (rule that)
      qed
    qed
    with x have c: "c = p @ CHR ''{'' # m @ CHR ''}'' # q" by simp
    have "slice c (length p) (Suc (length x)) = CHR ''{'' # m @ ''}''"
      unfolding c m by (simp add: slice_def)
    with pi xi le have "json_span c = CHR ''{'' # m @ ''}''" by (simp add: json_span_def)
    with c show ?thesis by blast
  next
    case gt: False
    with pi xi have js: "json_span c = c" by (simp add: json_span_def)
    have "\<not> has_object c"
    proof
      assume "has_object c"
      then obtain p' m' q' where d: "c = p' @ CHR ''{'' # m' @ CHR ''}'' # q'"
        unfolding has_object_def by blast
      from first_before[OF p pn d] have 1: "length p \<le> length p'" .
      from d have "c = (p' @ CHR ''{'' # m') @ CHR ''}'' # q'" by simp
      from last_after[OF x qn this] have 2: "length (p' @ CHR ''{'' # m') \<le> length x" .
      from 1 2 gt show False by simp
    qed
    with js show ?thesis by blast
  qed
qed

lemma no_close_json_span:
  assumes "CHR ''}'' \<notin> set t"
  shows "json_span t = t"
proof -
  from assms have "lastIndexOf CHR ''}'' t = None" by (simp add: lastIndexOf_def)
  then show ?thesis by (simp add: json_span_def split: option.splits)
qed

lemma no_open_json_span:
  assumes "CHR ''{'' \<notin> set t"
  shows "json_span t = t"
proof -
  from assms have "indexOf CHR ''{'' t = None" by (simp add: indexOf_def)
  then show ?thesis by (simp add: json_span_def)
qed

lemma no_object_json_span:
  assumes "\<not> has_object t"
  shows "json_span t = t"
  using json_span_cases[of t] assms unfolding has_object_def by blast

lemma braced_fixed:
  fixes m :: string
  defines "u \<equiv> CHR ''{'' # m @ ''}''"
  shows "json_span u = u"
    and "replace_all re_text_before [] u = u"
    and "replace_all re_text_after ''}'' u = u"
    and "trim u = u"
proof -
  have o: "CHR ''{'' \<in> set u" and cl: "CHR ''}'' \<in> set u" by (simp_all add: u_def)
  from indexOf_first[OF o] obtain p r where
    p: "u = p @ CHR ''{'' # r" and pn: "CHR ''{'' \<notin> set p"
    and pi: "indexOf CHR ''{'' u = Some (length p)" by blast
  have "p = []"
  proof (cases p)
    case Nil
    then show ?thesis .
  next
    case (Cons a as)
    with p have "a = CHR ''{''" by (simp add: u_def)
    with Cons pn show ?thesis by simp
  qed
  with pi have i0: "indexOf CHR ''{'' u = Some 0" by simp
  from lastIndexOf_last[OF cl] obtain x q where
    x: "u = x @ CHR ''}'' # q" and qn: "CHR ''}'' \<notin> set q"
    and xi: "lastIndexOf CHR ''}'' u = Some (length x)" by blast
  have "q = []"
  proof (rule ccontr)
    assume ne: "q \<noteq> []"
    with x have "last u = last q" by simp
    moreover have "last u = CHR ''}''" by (simp add: u_def)
    ultimately have "CHR ''}'' \<in> set q" using ne by (metis last_in_set)
    with qn show False ..
  qed
  with x have ux: "u = x @ ''}''" by simp
  then have lx: "Suc (length x) = length u" by (metis length_append_singleton)
  from i0 xi lx have "json_span u = slice u 0 (length u)"
    by (simp add: json_span_def)
  then show "json_span u = u" by (simp add: slice_def)
  have "replace_all re_text_before [] ([] @ CHR ''{'' # (m @ ''}'')) = CHR ''{'' # (m @ ''}'')"
    by (rule text_before_strip) simp
  then show "replace_all re_text_before [] u = u" by (simp add: u_def)
  have "replace_all re_text_after ''}'' ((CHR ''{'' # m) @ CHR ''}'' # []) = (CHR ''{'' # m) @ ''}''"
    by (rule text_after_strip) simp
  then show "replace_all re_text_after ''}'' u = u" by (simp add: u_def)
  have "trimmed u" using brace_not_space by (simp add: trimmed_def u_def)
  then show "trim u = u" by (rule trim_id)
qed

lemma spaces_wos: "\<forall>x \<in> set l. is_space x \<Longrightarrow> \<forall>x \<in> set l. word_or_space x"
  by (simp add: word_or_space_def)

lemma isolate_fixed:
  shows "json_span (isolate c) = isolate c
       \<and> replace_all re_text_before [] (isolate c) = isolate c
       \<and> replace_all re_text_after ''}'' (isolate c) = isolate c
       \<and> trim (isolate c) = isolate c"
proof (cases "has_object c")
  case True
  with json_span_cases[of c] obtain p m q where
    js: "json_span c = CHR ''{'' # m @ ''}''" unfolding has_object_def by blast
  have "isolate c = CHR ''{'' # m @ ''}''"
    unfolding isolate_def js by (simp only: braced_fixed)
  with braced_fixed[of m] show ?thesis by simp
next
  case no: False
  then have js: "json_span c = c" by (rule no_object_json_span)
  have tr: "trim (isolate c) = isolate c" unfolding isolate_def by (rule trim_idem)
  show ?thesis
  proof (cases "\<exists>p rest. c = p @ CHR ''{'' # rest \<and> (\<forall>x \<in> set p. word_or_space x)")
    case True
    then obtain p rest where c: "c = p @ CHR ''{'' # rest"
      and wp: "\<forall>x \<in> set p. word_or_space x" by blast
    have nr: "CHR ''}'' \<notin> set rest"
    proof
      assume "CHR ''}'' \<in> set rest"
      then obtain m q where "rest = m @ CHR ''}'' # q" by (meson split_list)
      with c have "has_object c" unfolding has_object_def by blast
      with no show False ..
    qed
    have s6: "replace_all re_text_before [] c = CHR ''{'' # rest"
      unfolding c by (rule text_before_strip[OF wp])
    have nb: "CHR ''}'' \<notin> set (CHR ''{'' # rest)" using nr by simp
    have s7: "replace_all re_text_after ''}'' (CHR ''{'' # rest) = CHR ''{'' # rest"
    proof (rule text_after_id)
      show "\<not> (\<exists>x y. CHR ''{'' # rest = x @ CHR ''}'' # y \<and> (\<forall>c \<in> set y. word_or_space c))"
      proof
        assume "\<exists>x y. CHR ''{'' # rest = x @ CHR ''}'' # y \<and> (\<forall>c \<in> set y. word_or_space c)"
        then obtain x y where "CHR ''{'' # rest = x @ CHR ''}'' # y" by blast
        then have "CHR ''}'' \<in> set (CHR ''{'' # rest)" by (metis in_set_conv_decomp)
        with nb show False ..
      qed
    qed
    have t: "isolate c = trim (CHR ''{'' # rest)" unfolding isolate_def js s6 s7 ..
    from trim_front[OF brace_not_space(1), of rest] obtain r' where
      r': "trim (CHR ''{'' # rest) = CHR ''{'' # r'" and sub: "set r' \<subseteq> set rest" by blast
    from t r' have t': "isolate c = CHR ''{'' # r'" by simp
    from sub nr have nt: "CHR ''}'' \<notin> set (CHR ''{'' # r')" by auto
    have a: "json_span (CHR ''{'' # r') = CHR ''{'' # r'" by (rule no_close_json_span[OF nt])
    have "replace_all re_text_before [] ([] @ CHR ''{'' # r') = CHR ''{'' # r'"
      by (rule text_before_strip) simp
    then have b: "replace_all re_text_before [] (CHR ''{'' # r') = CHR ''{'' # r'" by simp
    have d: "replace_all re_text_after ''}'' (CHR ''{'' # r') = CHR ''{'' # r'"
    proof (rule text_after_id)
      show "\<not> (\<exists>x y. CHR ''{'' # r' = x @ CHR ''}'' # y \<and> (\<forall>c \<in> set y. word_or_space c))"
      proof
        assume "\<exists>x y. CHR ''{'' # r' = x @ CHR ''}'' # y \<and> (\<forall>c \<in> set y. word_or_space c)"
        then obtain x y where "CHR ''{'' # r' = x @ CHR ''}'' # y" by blast
        then have "CHR ''}'' \<in> set (CHR ''{'' # r')" by (metis in_set_conv_decomp)
        with nt show False ..
      qed
    qed
    from a b d tr show ?thesis unfolding t' by simp
  next
    case nb6: False
    then have s6: "replace_all re_text_before [] c = c" by (rule text_before_id)
    show ?thesis
    proof (cases "\<exists>x y. c = x @ CHR ''}'' # y \<and> (\<forall>z \<in> set y. word_or_space z)")
      case True
      then obtain x y where c: "c = x @ CHR ''}'' # y"
        and wy: "\<forall>z \<in> set y. word_or_space z" by blast
      have nx: "CHR ''{'' \<notin> set x"
      proof
        assume "CHR ''{'' \<in> set x"
        then obtain p m where "x = p @ CHR ''{'' # m" by (meson split_list)
        with c have "c = p @ CHR ''{'' # m @ CHR ''}'' # y" by simp
        then have "has_object c" unfolding has_object_def by blast
        with no show False ..
      qed
      have s7: "replace_all re_text_after ''}'' c = x @ ''}''"
        unfolding c by (rule text_after_strip[OF wy])
      have "trim (x @ CHR ''}'' # []) = dropWhile is_space x @ [CHR ''}'']"
        by (rule trim_spaces_right[OF brace_not_space(2)]) simp
      then have t: "isolate c = dropWhile is_space x @ ''}''"
        unfolding isolate_def js s6 s7 by simp
      let ?x = "dropWhile is_space x"
      have "set ?x \<subseteq> set x" by (rule set_dropWhileD[THEN subsetI])
      with nx have nt: "CHR ''{'' \<notin> set (?x @ ''}'')" by auto
      have a: "json_span (?x @ ''}'') = ?x @ ''}''" by (rule no_open_json_span[OF nt])
      have b: "replace_all re_text_before [] (?x @ ''}'') = ?x @ ''}''"
      proof (rule text_before_id)
        show "\<not> (\<exists>p rest. ?x @ ''}'' = p @ CHR ''{'' # rest \<and> (\<forall>c \<in> set p. word_or_space c))"
        proof
          assume "\<exists>p rest. ?x @ ''}'' = p @ CHR ''{'' # rest \<and> (\<forall>c \<in> set p. word_or_space c)"
          then obtain p rest where "?x @ ''}'' = p @ CHR ''{'' # rest" by blast
          then have "CHR ''{'' \<in> set (?x @ ''}'')" by (metis in_set_conv_decomp)
          with nt show False ..
        qed
      qed
      have "replace_all re_text_after ''}'' (?x @ CHR ''}'' # []) = ?x @ ''}''"
        by (rule text_after_strip) simp
      then have d: "replace_all re_text_after ''}'' (?x @ ''}'') = ?x @ ''}''" by simp
      from a b d tr show ?thesis unfolding t by simp
    next
      case nb7: False
      then have s7: "replace_all re_text_after ''}'' c = c" by (rule text_after_id)
      have t: "isolate c = trim c" unfolding isolate_def js s6 s7 ..
      from trim_decomp[of c] obtain l r where
        d: "c = l @ trim c @ r" and sl: "\<forall>x \<in> set l. is_space x" and sr: "\<forall>x \<in> set r. is_space x"
        by blast
      have a: "json_span (trim c) = trim c"
      proof (rule no_object_json_span)
        show "\<not> has_object (trim c)"
        proof
          assume "has_object (trim c)"
          then obtain p m q where "trim c = p @ CHR ''{'' # m @ CHR ''}'' # q"
            unfolding has_object_def by blast
          with d have "c = (l @ p) @ CHR ''{'' # m @ CHR ''}'' # (q @ r)" by simp
          then have "has_object c" unfolding has_object_def by blast
          with no show False ..
        qed
      qed
      have b: "replace_all re_text_before [] (trim c) = trim c"
      proof (rule text_before_id)
        show "\<not> (\<exists>p rest. trim c = p @ CHR ''{'' # rest \<and> (\<forall>x \<in> set p. word_or_space x))"
        proof
          assume "\<exists>p rest. trim c = p @ CHR ''{'' # rest \<and> (\<forall>x \<in> set p. word_or_space x)"
          then obtain p rest where e: "trim c = p @ CHR ''{'' # rest"
            and wp: "\<forall>x \<in> set p. word_or_space x" by blast
          from d e have "c = (l @ p) @ CHR ''{'' # (rest @ r)" by simp
          moreover from spaces_wos[OF sl] wp have "\<forall>x \<in> set (l @ p). word_or_space x" by auto
          ultimately show False using nb6 by blast
        qed
      qed
      have e: "replace_all re_text_after ''}'' (trim c) = trim c"
      proof (rule text_after_id)
        show "\<not> (\<exists>x y. trim c = x @ CHR ''}'' # y \<and> (\<forall>z \<in> set y. word_or_space z))"
        proof
          assume "\<exists>x y. trim c = x @ CHR ''}'' # y \<and> (\<forall>z \<in> set y. word_or_space z)"
          then obtain x y where f: "trim c = x @ CHR ''}'' # y"
            and wy: "\<forall>z \<in> set y. word_or_space z" by blast
          from d f have "c = (l @ x) @ CHR ''}'' # (y @ r)" by simp
          moreover from spaces_wos[OF sr] wy have "\<forall>z \<in> set (y @ r). word_or_space z" by auto
          ultimately show False using nb7 by blast
        qed
      qed
      from a b e tr show ?thesis unfolding t by simp
    qed
  qed
qed

lemma isolate_idem: "isolate (isolate c) = isolate c"
proof -
  from isolate_fixed[of c] have a: "json_span (isolate c) = isolate c"
    and b: "replace_all re_text_before [] (isolate c) = isolate c"
    and d: "replace_all re_text_after ''}'' (isolate c) = isolate c"
    and e: "trim (isolate c) = isolate c" by simp_all
  have "isolate (isolate c) = trim (replace_all re_text_after ''}''
          (replace_all re_text_before [] (json_span (isolate c))))"
    by (simp only: isolate_def)
  also have "\<dots> = isolate c" by (simp only: a b d e)
  finally show ?thesis .
qed

lemma trimmed_isolate: "trimmed (isolate c)"
  unfolding isolate_def by (rule trimmed_trim)

lemma strict_match_last:
  assumes "k \<in> ends re_fence_close_strict w i"
  shows "w \<noteq> [] \<and> \<not> is_space (last w)"
proof -
  from assms obtain j where sl: "slice w j (j + 3) = ''```''" and e: "j + 3 = length w"
    unfolding in_ends_fence_close_strict by blast
  from slice_fence_last[OF sl] have t: "w ! (j + 2) = CHR ''`''" by simp
  from e have ne: "w \<noteq> []" by auto
  then have "last w = w ! (length w - 1)" by (rule last_conv_nth)
  moreover from e have "length w - 1 = j + 2" by simp
  ultimately have "last w = CHR ''`''" using t by simp
  with ne tick_not_space show ?thesis by simp
qed

lemma close_end_length: "k \<in> ends re_fence_close w i \<Longrightarrow> k = length w"
  unfolding in_ends_fence_close by blast

lemma fence_close_agree:
  assumes "trim (replace_first re_fence_close_strict [] a) = [] \<or>
           last (trim (replace_first re_fence_close_strict [] a)) \<noteq> CHR ''`''"
  shows "trim (replace_first re_fence_close [] a) = trim (replace_first re_fence_close_strict [] a)"
proof (cases "\<exists>i k. k \<in> ends re_fence_close_strict a i")
  case True
  then obtain i k where "k \<in> ends re_fence_close_strict a i" by blast
  from strict_match_last[OF this] have ne: "a \<noteq> []" and ns: "\<not> is_space (last a)" by simp_all
  from fence_close_same[OF ne ns] have same: "\<forall>i. ends re_fence_close a i = ends re_fence_close_strict a i"
    by simp
  have one: "\<forall>i k. k \<in> ends re_fence_close a i \<longrightarrow> k = length a"
    using close_end_length by blast
  from replace_first_same_ends[OF same one]
  show ?thesis by simp
next
  case False
  then have "\<forall>i. i \<le> length a \<longrightarrow> ends re_fence_close_strict a i = {}" by blast
  then have c: "replace_first re_fence_close_strict [] a = a" by (rule replace_first_none)
  have "\<forall>i. i \<le> length a \<longrightarrow> ends re_fence_close a i = {}"
  proof (intro allI impI, rule ccontr)
    fix i assume "ends re_fence_close a i \<noteq> {}"
    then obtain k where "k \<in> ends re_fence_close a i" by blast
    from fence_close_trim_last[OF this] have "trim a \<noteq> [] \<and> last (trim a) = CHR ''`''" .
    with assms c show False by simp
  qed
  then have "replace_first re_fence_close [] a = a" by (rule replace_first_none)
  with c show ?thesis by simp
qed

lemma campaign_unfold:
  "cleanJsonResponse_campaign s =
     trim (replace_first re_fence_close_strict []
            (replace_first re_fence_open [] (replace_first re_fence_json [] s)))"
  by (simp only: cleanJsonResponse_campaign_def)

lemma replace_first_Nil: "replace_first r rep [] = [] \<or> replace_first r rep [] = rep"
proof (cases "search r [] 0")
  case None
  then show ?thesis by (simp add: replace_first_def)
next
  case (Some t)
  obtain p c e where t: "t = (p, c, e)" by (cases t)
  with Some search_bounds[of r "[]" 0 p c e] have "p = 0" "e = 0" by simp_all
  with Some t show ?thesis by (simp add: replace_first_def)
qed

lemma campaign_Nil: "cleanJsonResponse_campaign [] = []"
proof -
  from replace_first_Nil[of re_fence_json "[]"] have a: "replace_first re_fence_json [] [] = []" by simp
  from replace_first_Nil[of re_fence_open "[]"] have b: "replace_first re_fence_open [] [] = []" by simp
  from replace_first_Nil[of re_fence_close_strict "[]"]
  have c: "replace_first re_fence_close_strict [] [] = []" by simp
  show ?thesis by (simp add: campaign_unfold a b c trim_def)
qed

lemma shared_via_campaign:
  assumes "cleanJsonResponse_campaign s = [] \<or> last (cleanJsonResponse_campaign s) \<noteq> CHR ''`''"
  shows "cleanJsonResponse s = isolate (cleanJsonResponse_campaign s)"
proof (cases "s = []")
  case True
  have "isolate [] = []"
  proof -
    have "json_span [] = []" by (rule no_open_json_span) simp
    moreover have "replace_all re_text_before [] [] = []" by (rule text_before_id) simp
    moreover have "replace_all re_text_after ''}'' [] = []" by (rule text_after_id) simp
    ultimately show ?thesis by (simp add: isolate_def trim_def)
  qed
  with True campaign_Nil show ?thesis by (simp add: cleanJsonResponse_def)
next
  case False
  let ?a = "replace_first re_fence_open [] (replace_first re_fence_json [] s)"
  from assms have "trim (replace_first re_fence_close_strict [] ?a) = [] \<or>
      last (trim (replace_first re_fence_close_strict [] ?a)) \<noteq> CHR ''`''"
    by (simp only: campaign_unfold)
  from fence_close_agree[OF this]
  have "trim (replace_first re_fence_close [] ?a) = cleanJsonResponse_campaign s"
    by (simp only: campaign_unfold)
  with False show ?thesis by (simp add: cleanJsonResponse_isolate)
qed

lemma braced_form:
  assumes "prefix ''{'' t" and "suffix ''}'' t"
  shows "\<exists>m. t = CHR ''{'' # m @ ''}''"
proof -
  from assms(1) obtain r where r: "t = CHR ''{'' # r" by (auto simp: prefix_def)
  from assms(2) obtain x where x: "t = x @ ''}''" by (auto simp: suffix_def)
  have "r \<noteq> []"
  proof
    assume "r = []"
    with r x have "x @ [CHR ''}''] = [CHR ''{'']" by simp
    then show False by (cases x) auto
  qed
  then have "r = butlast r @ [last r]" by simp
  moreover from r x \<open>r \<noteq> []\<close> have "last r = CHR ''}''" by (metis last.simps last_snoc)
  ultimately have "r = butlast r @ ''}''" by simp
  with r show ?thesis by blast
qed

lemma isolate_plain:
  assumes "CHR ''{'' \<notin> set t" and "CHR ''}'' \<notin> set t" and "trim t = t"
  shows "isolate t = t"
proof -
  have a: "json_span t = t" by (rule no_open_json_span[OF assms(1)])
  have b: "replace_all re_text_before [] t = t"
  proof (rule text_before_id)
    show "\<not> (\<exists>p rest. t = p @ CHR ''{'' # rest \<and> (\<forall>c \<in> set p. word_or_space c))"
      using assms(1) by auto
  qed
  have d: "replace_all re_text_after ''}'' t = t"
  proof (rule text_after_id)
    show "\<not> (\<exists>x y. t = x @ CHR ''}'' # y \<and> (\<forall>c \<in> set y. word_or_space c))"
      using assms(2) by auto
  qed
  show ?thesis by (simp only: isolate_def a b d assms(3))
qed

lemma search_Some_mem:
  "search r w i = Some (p, c, e) \<Longrightarrow> (c, e) \<in> set (rmatch r w p)"
proof (induction r w i rule: search.induct)
  case (1 r w i)
  show ?case
  proof (cases "rmatch r w i")
    case Nil
    with "1.prems" have le: "\<not> length w < i" and "search r w (Suc i) = Some (p, c, e)"
      by (auto simp: search.simps[of r w i] split: if_splits)
    with Nil "1.IH" show ?thesis by simp
  next
    case (Cons x xs)
    with "1.prems" show ?thesis
      by (auto simp: search.simps[of r w i] split: if_splits prod.splits)
  qed
qed

lemma search_Some_ends:
  "search r w i = Some (p, c, e) \<Longrightarrow> e \<in> ends r w p"
  using search_Some_mem[of r w i p c e] unfolding in_ends by blast

lemma replace_first_length:
  "length (replace_first r [] w) \<le> length w"
proof (cases "search r w 0")
  case None
  then show ?thesis by (simp add: replace_first_def)
next
  case (Some t)
  obtain p c e where t: "t = (p, c, e)" by (cases t)
  with Some search_bounds[of r w 0 p c e] have "p \<le> e" "e \<le> length w" by simp_all
  with Some t show ?thesis by (simp add: replace_first_def)
qed

lemma trim_length: "length (trim w) \<le> length w"
proof -
  from trim_decomp[of w] obtain l r where "w = l @ trim w @ r" by blast
  then have "length w = length l + length (trim w) + length r"
    by (metis length_append add.assoc)
  then show ?thesis by simp
qed

lemma json_span_length: "length (json_span w) \<le> length w"
proof -
  from json_span_cases[of w] show ?thesis
  proof
    assume "\<not> has_object w \<and> json_span w = w"
    then show ?thesis by simp
  next
    assume "\<exists>p m q. w = p @ CHR ''{'' # m @ CHR ''}'' # q \<and> json_span w = CHR ''{'' # m @ ''}''"
    then obtain p m q where w: "w = p @ CHR ''{'' # m @ CHR ''}'' # q"
      and j: "json_span w = CHR ''{'' # m @ ''}''" by blast
    from w have "length w = length p + length m + length q + 2" by simp
    moreover from j have "length (json_span w) = length m + 2" by simp
    ultimately show ?thesis by simp
  qed
qed

lemma text_before_length: "length (replace_all re_text_before [] w) \<le> length w"
proof (cases "\<exists>p rest. w = p @ CHR ''{'' # rest \<and> (\<forall>c \<in> set p. word_or_space c)")
  case True
  then obtain p rest where w: "w = p @ CHR ''{'' # rest"
    and wp: "\<forall>c \<in> set p. word_or_space c" by blast
  from text_before_strip[OF wp, of rest] w show ?thesis by simp
next
  case False
  then have "replace_all re_text_before [] w = w" by (rule text_before_id)
  then show ?thesis by simp
qed

lemma text_after_length: "length (replace_all re_text_after ''}'' w) \<le> length w"
proof (cases "\<exists>x y. w = x @ CHR ''}'' # y \<and> (\<forall>c \<in> set y. word_or_space c)")
  case True
  then obtain x y where w: "w = x @ CHR ''}'' # y"
    and wy: "\<forall>c \<in> set y. word_or_space c" by blast
  from text_after_strip[OF wy, of x] w show ?thesis by simp
next
  case False
  then have "replace_all re_text_after ''}'' w = w" by (rule text_after_id)
  then show ?thesis by simp
qed

lemma isolate_length: "length (isolate w) \<le> length w"
proof -
  have "length (isolate w)
          \<le> length (replace_all re_text_after ''}'' (replace_all re_text_before [] (json_span w)))"
    unfolding isolate_def by (rule trim_length)
  also have "\<dots> \<le> length (replace_all re_text_before [] (json_span w))"
    by (rule text_after_length)
  also have "\<dots> \<le> length (json_span w)" by (rule text_before_length)
  also have "\<dots> \<le> length w" by (rule json_span_length)
  finally show ?thesis .
qed

lemma fence_open_strips:
  assumes "prefix ''```'' w"
  shows "length (replace_first re_fence_open [] w) < length w"
proof -
  from assms obtain r where w: "w = ''```'' @ r" by (auto simp: prefix_def)
  then have sl: "slice w 0 (0 + 3) = ''```''" by (simp add: slice_def)
  from w have lw: "3 \<le> length w" by simp
  have a: "0 \<in> ends Bol w 0" by (simp only: in_ends_Bol)
  from sl have b: "0 + 3 \<in> ends (LitCI ''```'') w 0"
    by (simp only: in_ends_LitCI toLowerCase_fence fence_len)
  from lw have c: "0 + 3 \<in> ends (Star (Sym is_space)) w (0 + 3)" by (simp add: in_ends_Star run_refl)
  from a b c have "0 + 3 \<in> ends re_fence_open w 0"
    unfolding re_fence_open_def cat3 in_ends_Seq by blast
  then have "rmatch re_fence_open w 0 \<noteq> []" by (auto simp: rmatch_Nil_iff)
  then have "search re_fence_open w 0 \<noteq> None" by (auto simp: search_None_iff)
  then obtain p c e where s: "search re_fence_open w 0 = Some (p, c, e)" by auto
  from search_Some_ends[OF s] have e: "e \<in> ends re_fence_open w p" .
  from fence_open_prefix[OF e] have p0: "p = 0" by simp
  from e p0 obtain j m where j: "j \<in> ends Bol w 0" and m: "m \<in> ends (LitCI ''```'') w j"
    and k: "e \<in> ends (Star (Sym is_space)) w m"
    unfolding re_fence_open_def cat3 in_ends_Seq by blast
  from j have "j = 0" by (simp only: in_ends_Bol)
  with m have "m = 0 + 3" by (simp only: in_ends_LitCI fence_len)
  with k lw have "run_of is_space w 3 e" by (simp add: in_ends_Star)
  then have e3: "3 \<le> e" and el: "e \<le> length w" by (auto dest: run_le)
  from s p0 have "replace_first re_fence_open [] w = drop e w" by (simp add: replace_first_def)
  with e3 el lw show ?thesis by simp
qed

lemma fence_close_strips:
  assumes "suffix ''```'' w"
  shows "length (replace_first re_fence_close [] w) < length w"
proof -
  from assms obtain x where w: "w = x @ ''```''" by (auto simp: suffix_def)
  let ?j = "length x"
  from w have sl: "slice w ?j (?j + 3) = ''```''" by (simp add: slice_def)
  from w have lw: "?j + 3 = length w" by simp
  have "run_of is_space w ?j ?j" using lw by (simp add: run_refl)
  moreover have "run_of is_space w (?j + 3) (length w)" using lw by (simp add: run_refl)
  ultimately have "length w \<in> ends re_fence_close w ?j"
    using sl unfolding in_ends_fence_close by blast
  then have "rmatch re_fence_close w ?j \<noteq> []" by (auto simp: rmatch_Nil_iff)
  moreover from lw have "?j \<le> length w" by simp
  ultimately have "search re_fence_close w 0 \<noteq> None" by (auto simp: search_None_iff)
  then obtain p c e where s: "search re_fence_close w 0 = Some (p, c, e)" by auto
  from search_Some_ends[OF s] have e: "e \<in> ends re_fence_close w p" .
  then have el: "e = length w" by (rule close_end_length)
  from e obtain j where r: "run_of is_space w p j" and f: "slice w j (j + 3) = ''```''"
    unfolding in_ends_fence_close by blast
  from slice_fence_last[OF f] have "j + 3 \<le> length w" by simp
  moreover from r have "p \<le> j" by (auto dest: run_le)
  ultimately have pl: "p + 3 \<le> length w" by simp
  from s el have "replace_first re_fence_close [] w = take p w" by (simp add: replace_first_def)
  with pl show ?thesis by simp
qed

lemma fenced_not_fixed:
  assumes "prefix ''```'' t \<or> suffix ''```'' t"
  shows "cleanJsonResponse t \<noteq> t"
proof
  assume fx: "cleanJsonResponse t = t"
  let ?x1 = "replace_first re_fence_json [] t"
  let ?x2 = "replace_first re_fence_open [] ?x1"
  let ?x3 = "replace_first re_fence_close [] ?x2"
  from assms have ne: "t \<noteq> []" by auto
  then have c: "cleanJsonResponse t = isolate (trim ?x3)" by (simp add: cleanJsonResponse_isolate)
  have l1: "length ?x1 \<le> length t" by (rule replace_first_length)
  have l2: "length ?x2 \<le> length ?x1" by (rule replace_first_length)
  have l3: "length ?x3 \<le> length ?x2" by (rule replace_first_length)
  have "length (isolate (trim ?x3)) \<le> length (trim ?x3)" by (rule isolate_length)
  also have "\<dots> \<le> length ?x3" by (rule trim_length)
  finally have l4: "length (cleanJsonResponse t) \<le> length ?x3" by (simp only: c)
  have "length ?x3 < length t"
  proof (cases "prefix ''```'' t")
    case True
    show ?thesis
    proof (cases "?x1 = t")
      case same: True
      from fence_open_strips[OF True] have "length (replace_first re_fence_open [] t) < length t" .
      with same l3 show ?thesis by simp
    next
      case False
      have "length ?x1 \<noteq> length t"
      proof
        assume eq: "length ?x1 = length t"
        have "?x1 = t"
        proof (cases "search re_fence_json t 0")
          case None
          then show ?thesis by (simp add: replace_first_def)
        next
          case (Some u)
          obtain p c e where u: "u = (p, c, e)" by (cases u)
          with Some search_bounds[of re_fence_json t 0 p c e] have b: "p \<le> e" "e \<le> length t"
            by simp_all
          from Some u have r: "?x1 = take p t @ drop e t" by (simp add: replace_first_def)
          with eq b have "p = e" by simp
          with r show ?thesis by simp
        qed
        with False show False ..
      qed
      with l1 have "length ?x1 < length t" by simp
      with l2 l3 show ?thesis by simp
    qed
  next
    case False
    with assms have sf: "suffix ''```'' t" by simp
    from no_fence_open[OF False] have "?x1 = t" and "replace_first re_fence_open [] t = t"
      by simp_all
    then have "?x2 = t" by simp
    with fence_close_strips[OF sf] show ?thesis by simp
  qed
  with l4 have "length (cleanJsonResponse t) < length t" by simp
  with fx show False by simp
qed

lemma unfenced_fixed:
  assumes "\<not> prefix ''```'' (cleanJsonResponse s)" and "\<not> suffix ''```'' (cleanJsonResponse s)"
  shows "cleanJsonResponse (cleanJsonResponse s) = cleanJsonResponse s"
proof (cases "s = []")
  case True
  then show ?thesis by (simp add: cleanJsonResponse_def)
next
  case False
  let ?c = "trim (replace_first re_fence_close []
              (replace_first re_fence_open [] (replace_first re_fence_json [] s)))"
  from False have t: "cleanJsonResponse s = isolate ?c" by (simp add: cleanJsonResponse_isolate)
  let ?t = "isolate ?c"
  from assms t have np: "\<not> prefix ''```'' ?t" and ns: "\<not> suffix ''```'' ?t" by simp_all
  from no_fence_open[OF np] have r1: "replace_first re_fence_json [] ?t = ?t"
    and r2: "replace_first re_fence_open [] ?t = ?t" by simp_all
  have r3: "replace_first re_fence_close [] ?t = ?t"
    by (rule no_fence_close[OF trimmed_isolate ns])
  have r4: "trim ?t = ?t" by (rule trim_id[OF trimmed_isolate])
  have "cleanJsonResponse ?t = (if ?t = [] then ?t else isolate ?t)"
    by (simp only: cleanJsonResponse_isolate[of ?t] r1 r2 r3 r4)
  also have "\<dots> = ?t" by (simp only: isolate_idem if_cancel)
  finally show ?thesis by (simp only: t)
qed

section \<open>Lemmas about captures\<close>

lemma rmatch_ngroups:
  "(c, j) \<in> set (rmatch r w i) \<Longrightarrow> length c = ngroups r"
proof (induction r w i arbitrary: c j rule: rmatch.induct)
  case (7 a b w i)
  from "7.prems" obtain c1 k c2 where
    a: "(c1, k) \<in> set (rmatch a w i)" and b: "(c2, j) \<in> set (rmatch b w k)" and c: "c = c1 @ c2"
    by auto
  from "7.IH"(1)[OF a] "7.IH"(2)[OF a refl b] c show ?case by simp
next
  case (8 a w i)
  from "8.prems" consider "c = []" |
    c1 k where "(c1, k) \<in> set (rmatch a w i)" "i < k" "k \<le> length w"
      "(c, j) \<in> set (rmatch (Star a) w k)"
    by (auto simp: rmatch_Star[of a w i] split: if_splits)
  then show ?case
  proof cases
    case 1
    then show ?thesis by simp
  next
    case 2
    from "8.IH"(2)[OF 2(1) refl _ 2(4)] 2 show ?thesis by simp
  qed
next
  case (9 a w i)
  from "9.prems" consider "c = []" |
    c1 k where "(c1, k) \<in> set (rmatch a w i)" "i < k" "k \<le> length w"
      "(c, j) \<in> set (rmatch (Lazy a) w k)"
    by (auto simp: rmatch_Lazy[of a w i] split: if_splits)
  then show ?case
  proof cases
    case 1
    then show ?thesis by simp
  next
    case 2
    from "9.IH"(2)[OF 2(1) refl _ 2(4)] 2 show ?thesis by simp
  qed
next
  case (10 a w i)
  then show ?case by auto
qed (auto split: if_splits)

lemma search_Some:
  "search r w i = Some (p, c, e) \<Longrightarrow> (c, e) \<in> set (rmatch r w p)"
proof (induction r w i rule: search.induct)
  case (1 r w i)
  show ?case
  proof (cases "rmatch r w i")
    case Nil
    with "1.prems" have le: "\<not> length w < i" and "search r w (Suc i) = Some (p, c, e)"
      by (auto simp: search.simps[of r w i] split: if_splits)
    with Nil "1.IH" show ?thesis by simp
  next
    case (Cons x xs)
    with "1.prems" show ?thesis
      by (auto simp: search.simps[of r w i] split: if_splits prod.splits)
  qed
qed

lemma search_ngroups:
  "search r w i = Some (p, c, e) \<Longrightarrow> length c = ngroups r"
  using search_Some rmatch_ngroups by blast

lemma ngroups_re_field: "ngroups (re_field n) = 1"
  by (simp add: re_field_def re_quoted_body_def cat_def)

lemma ngroups_re_array_field: "ngroups (re_array_field n) = 1"
  by (simp add: re_array_field_def cat_def)

lemma extractField_total: "\<exists>v. extractField s n d = Inr v"
proof (cases "search (re_field n) s 0")
  case None
  then show ?thesis by (simp add: extractField_def)
next
  case (Some t)
  obtain p c e where t: "t = (p, c, e)" by (cases t)
  with Some search_ngroups[of "re_field n" s 0 p c e] have "length c = 1"
    by (simp add: ngroups_re_field)
  then obtain g where "c = [g]" by (cases c) auto
  with Some t show ?thesis by (simp add: extractField_def group1_def)
qed

lemma extractArray_total: "\<exists>v. extractArray s n d = Inr v"
proof (cases "search (re_array_field n) s 0")
  case None
  then show ?thesis by (simp add: extractArray_def)
next
  case (Some t)
  obtain p c e where t: "t = (p, c, e)" by (cases t)
  with Some search_ngroups[of "re_array_field n" s 0 p c e] have "length c = 1"
    by (simp add: ngroups_re_array_field)
  then obtain g where "c = [g]" by (cases c) auto
  with Some t show ?thesis by (simp add: extractArray_def group1_def split: option.splits)
qed

lemma extract_common_total: "\<exists>kv. extract_common s f = Inr kv"
proof -
  obtain n k d where f: "f = (n, k, d)" by (cases f)
  show ?thesis
  proof (cases k)
    case Field
    with f extractField_total[of s n d] show ?thesis by auto
  next
    case ArrayField
    with f extractArray_total[of s n d] show ?thesis by auto
  qed
qed

lemma sequence_total:
  "(\<And>x. x \<in> set xs \<Longrightarrow> \<exists>y. f x = Inr y) \<Longrightarrow> \<exists>ys. sequence (map f xs) = Inr ys"
proof (induction xs)
  case Nil
  then show ?case by simp
next
  case (Cons x xs)
  then obtain y ys where "f x = Inr y" "sequence (map f xs) = Inr ys" by fastforce
  then show ?case by simp
qed

lemma manual_reconstruction_total: "\<exists>v. manual_reconstruction s = Inr v"
proof -
  from sequence_total[of common_fields "extract_common s"] extract_common_total
  obtain kvs where "sequence (map (extract_common s) common_fields) = Inr kvs" by blast
  then show ?thesis by (simp add: manual_reconstruction_def)
qed

section \<open>Lemmas about the job-extraction helpers\<close>

lemma extractJobFromUrl_try_apply_url:
  "extractJobFromUrl_try JSON_parse completion jobUrl = Inr r \<Longrightarrow> apply_url r = jobUrl"
  by (auto simp: extractJobFromUrl_try_def and_then_def split: sum.splits)

lemma strings_of_sound: "set (strings_of vs) = {s. JStr s \<in> set vs}"
  by (induction vs rule: strings_of.induct) auto

lemma strings_of_filter: "map JStr (strings_of vs) = filter is_string vs"
  by (induction vs rule: strings_of.induct) auto

lemma get_prop_total: "d \<noteq> JNull \<Longrightarrow> d \<noteq> JUndef \<Longrightarrow> \<exists>v. get_prop d k = Inr v"
  by (cases d) auto

lemma get_prop_eq: "d \<noteq> JNull \<Longrightarrow> d \<noteq> JUndef \<Longrightarrow> get_prop d k = Inr (prop_of d k)"
  by (cases d) auto

lemma validateJsonStructure_eq:
  assumes "d \<noteq> JNull" and "d \<noteq> JUndef"
  shows "validateJsonStructure d =
          Inr \<lparr> title = string_or (prop_of d ''title'') ''Healthcare Professional'',
                description = string_or (prop_of d ''description'') ''Join our healthcare team.'',
                requirements = requirements_of (prop_of d ''requirements''),
                location = string_or (prop_of d ''location'') ''Multiple locations'',
                salary_range = string_or_undefined (prop_of d ''salary_range''),
                employment_type = employment_type_of (prop_of d ''employment_type''),
                company_name = string_or_undefined (prop_of d ''company_name''),
                reference_number = string_or_undefined (prop_of d ''reference_number''),
                shift_timings = string_or_undefined (prop_of d ''shift_timings''),
                apply_url = string_or (prop_of d ''apply_url'') [] \<rparr>"
  unfolding validateJsonStructure_def and_then_def
  by (simp only: get_prop_eq[OF assms] sum.case)

lemma string_or_JStr: "string_or (JStr s) d = s"
  by simp

lemma string_or_other: "(\<nexists>s. v = JStr s) \<Longrightarrow> string_or v d = d"
  by (cases v) auto

lemma requirements_of_other:
  "(\<nexists>vs. v = JArr vs) \<Longrightarrow> requirements_of v = [''Professional certification required'']"
  by (cases v) auto

lemma employment_type_of_range:
  "employment_type_of v \<in> {''full-time'', ''part-time'', ''contract'', ''temporary''}"
  by (cases v) (auto simp: employment_types_def)

lemma employment_type_of_keep:
  "s \<in> {''full-time'', ''part-time'', ''contract'', ''temporary''} \<Longrightarrow> employment_type_of (JStr s) = s"
  by (auto simp: employment_types_def)

lemma employment_type_of_default:
  "v \<notin> JStr ` {''full-time'', ''part-time'', ''contract'', ''temporary''} \<Longrightarrow>
     employment_type_of v = ''full-time''"
  by (cases v) (auto simp: employment_types_def)

section \<open>Lemmas about the catch clauses of the campaign functions\<close>

lemma generateCampaignSequence_catch:
  "generateCampaignSequence_try JSON_parse parseInt completion = Inl e \<Longrightarrow>
     generateCampaignSequence JSON_parse parseInt completion prompt = fallbackSequence prompt"
  by (simp add: generateCampaignSequence_def)

lemma processUserInput_catch:
  "processUserInput_try JSON_parse completion currentDraft = Inl e \<Longrightarrow>
     processUserInput JSON_parse completion userInput conversationHistory currentDraft recentSearches
       = createFallbackResponse userInput currentDraft recentSearches"
  by (simp add: processUserInput_def)

section \<open>parseJsonSafely\<close>

text \<open>
  Claim C1. For every input string that \<open>JSON.parse\<close> accepts, \<open>parseJsonSafely\<close> returns
  exactly the value \<open>JSON.parse\<close> returns: the quote re-escaping, the array fixing and the
  manual reconstruction run only after the direct parse has thrown. The statement holds for
  every parser, since the function consults it first and returns at once on success.
\<close>

theorem parseJsonSafely_direct:
  "JSON_parse s = Inr v \<Longrightarrow> parseJsonSafely JSON_parse s = Inr v"
  by (simp add: parseJsonSafely_def)

theorem parseJsonSafely_direct_witness:
  "literal_parser ''null'' = Inr JNull \<and> parseJsonSafely literal_parser ''null'' = Inr JNull"
proof -
  have h: "literal_parser ''null'' = Inr JNull"
    by (simp add: literal_parser_def)
  from parseJsonSafely_direct[of literal_parser "''null''" JNull, OF h] h show ?thesis by simp
qed

text \<open>
  Claim C9. \<open>parseJsonSafely\<close> is total on strings: whatever the parser does, the third
  attempt builds an object, so the final \<open>Failed to parse JSON after multiple attempts\<close>
  branch is never taken. The only operation of the third attempt that can throw is reading
  \<open>match[1]\<close> of a successful match; both regular expressions have one capture group, which
  every match reports (\<open>search_ngroups\<close>).
\<close>

theorem parseJsonSafely_total: "\<exists>v. parseJsonSafely JSON_parse s = Inr v"
proof -
  from manual_reconstruction_total obtain v where "manual_reconstruction s = Inr v" by blast
  then show ?thesis by (auto simp: parseJsonSafely_def split: sum.splits)
qed

theorem parseJsonSafely_total_witness:
  "\<exists>v. parseJsonSafely literal_parser ''{\"title\": \"The \"Best\" Nurse\"}'' = Inr v"
  by (rule parseJsonSafely_total)

section \<open>Job extraction\<close>

text \<open>
  Claim C4. For every URL and every outcome of the completion request (a rejected request,
  no content, empty content, malformed or well-formed JSON), the data \<open>extractJobFromUrl\<close>
  returns has \<open>apply_url\<close> equal to the URL it was given: the success path overwrites the
  field, and the fallback data carries the URL.
\<close>

theorem extractJobFromUrl_apply_url:
  "apply_url (extractJobFromUrl JSON_parse URL_hostname completion jobUrl) = jobUrl"
proof (cases "extractJobFromUrl_try JSON_parse completion jobUrl")
  case (Inl e)
  then show ?thesis by (simp add: extractJobFromUrl_def createFallbackJobData_def Let_def)
next
  case (Inr r)
  with extractJobFromUrl_try_apply_url[OF Inr] show ?thesis by (simp add: extractJobFromUrl_def)
qed

theorem extractJobFromUrl_apply_url_witness:
  "apply_url (extractJobFromUrl literal_parser (\<lambda>u. Some ''www.acme.org'') (Inr (Some ''null''))
               ''https://www.acme.org/jobs/nurse'') = ''https://www.acme.org/jobs/nurse''"
  by (rule extractJobFromUrl_apply_url)

text \<open>
  Claim C5, as stated, fails: \<open>validateJsonStructure\<close> reads \<open>data.title\<close> first, and on
  \<open>null\<close> (which \<open>JSON.parse\<close> returns for the text \<open>null\<close>) that read throws a
  \<open>TypeError\<close>, so no \<open>ExtractedJobData\<close> is returned for that input.
\<close>

theorem validateJsonStructure_null:
  "validateJsonStructure JNull = Inl (TypeError ''Cannot read properties of null (reading title)'')"
  by (simp add: validateJsonStructure_def and_then_def)

text \<open>
  Claim C5, amended. For every input value other than \<open>null\<close> and \<open>undefined\<close>,
  \<open>validateJsonStructure\<close> returns an \<open>ExtractedJobData\<close> in which
  \<^item> \<open>employment_type\<close> is one of \<open>full-time\<close>, \<open>part-time\<close>, \<open>contract\<close>, \<open>temporary\<close>: the
    input's field when it is one of these strings, \<open>full-time\<close> otherwise;
  \<^item> \<open>requirements\<close> holds exactly the string elements of the input's array, in order, and
    is the one-element list \<open>Professional certification required\<close> when the input's field
    is not an array;
  \<^item> \<open>title\<close>, \<open>description\<close>, \<open>location\<close> and \<open>apply_url\<close> are the input's fields when
    these are strings, and \<open>Healthcare Professional\<close>, \<open>Join our healthcare team.\<close>,
    \<open>Multiple locations\<close> and the empty string otherwise.
\<close>

theorem validateJsonStructure_fields:
  assumes "d \<noteq> JNull" and "d \<noteq> JUndef"
  shows "\<exists>r. validateJsonStructure d = Inr r
           \<and> employment_type r \<in> {''full-time'', ''part-time'', ''contract'', ''temporary''}
           \<and> (\<forall>s \<in> {''full-time'', ''part-time'', ''contract'', ''temporary''}.
                 get_prop d ''employment_type'' = Inr (JStr s) \<longrightarrow> employment_type r = s)
           \<and> ((\<nexists>s. s \<in> {''full-time'', ''part-time'', ''contract'', ''temporary''}
                     \<and> get_prop d ''employment_type'' = Inr (JStr s)) \<longrightarrow>
                 employment_type r = ''full-time'')
           \<and> (\<forall>vs. get_prop d ''requirements'' = Inr (JArr vs) \<longrightarrow>
                 map JStr (requirements r) = filter is_string vs)
           \<and> ((\<nexists>vs. get_prop d ''requirements'' = Inr (JArr vs)) \<longrightarrow>
                 requirements r = [''Professional certification required''])
           \<and> (\<forall>s. get_prop d ''title'' = Inr (JStr s) \<longrightarrow> title r = s)
           \<and> ((\<nexists>s. get_prop d ''title'' = Inr (JStr s)) \<longrightarrow> title r = ''Healthcare Professional'')
           \<and> (\<forall>s. get_prop d ''description'' = Inr (JStr s) \<longrightarrow> description r = s)
           \<and> ((\<nexists>s. get_prop d ''description'' = Inr (JStr s)) \<longrightarrow>
                 description r = ''Join our healthcare team.'')
           \<and> (\<forall>s. get_prop d ''location'' = Inr (JStr s) \<longrightarrow> location r = s)
           \<and> ((\<nexists>s. get_prop d ''location'' = Inr (JStr s)) \<longrightarrow> location r = ''Multiple locations'')
           \<and> (\<forall>s. get_prop d ''apply_url'' = Inr (JStr s) \<longrightarrow> apply_url r = s)
           \<and> ((\<nexists>s. get_prop d ''apply_url'' = Inr (JStr s)) \<longrightarrow> apply_url r = [])"
proof -
  note gp = get_prop_eq[OF assms]
  let ?r = "\<lparr> title = string_or (prop_of d ''title'') ''Healthcare Professional'',
                description = string_or (prop_of d ''description'') ''Join our healthcare team.'',
                requirements = requirements_of (prop_of d ''requirements''),
                location = string_or (prop_of d ''location'') ''Multiple locations'',
                salary_range = string_or_undefined (prop_of d ''salary_range''),
                employment_type = employment_type_of (prop_of d ''employment_type''),
                company_name = string_or_undefined (prop_of d ''company_name''),
                reference_number = string_or_undefined (prop_of d ''reference_number''),
                shift_timings = string_or_undefined (prop_of d ''shift_timings''),
                apply_url = string_or (prop_of d ''apply_url'') [] \<rparr>"
  have r: "validateJsonStructure d = Inr ?r"
    by (rule validateJsonStructure_eq[OF assms])
  have e1: "employment_type ?r \<in> {''full-time'', ''part-time'', ''contract'', ''temporary''}"
    using employment_type_of_range[of "prop_of d ''employment_type''"] by simp
  have e2: "\<forall>s \<in> {''full-time'', ''part-time'', ''contract'', ''temporary''}.
              get_prop d ''employment_type'' = Inr (JStr s) \<longrightarrow> employment_type ?r = s"
    using employment_type_of_keep by (auto simp: gp)
  have e3: "(\<nexists>s. s \<in> {''full-time'', ''part-time'', ''contract'', ''temporary''}
                     \<and> get_prop d ''employment_type'' = Inr (JStr s)) \<longrightarrow>
              employment_type ?r = ''full-time''"
    using employment_type_of_default[of "prop_of d ''employment_type''"] by (auto simp: gp)
  have q1: "\<forall>vs. get_prop d ''requirements'' = Inr (JArr vs) \<longrightarrow>
              map JStr (requirements ?r) = filter is_string vs"
    by (auto simp: gp strings_of_filter)
  have q2: "(\<nexists>vs. get_prop d ''requirements'' = Inr (JArr vs)) \<longrightarrow>
              requirements ?r = [''Professional certification required'']"
    using requirements_of_other[of "prop_of d ''requirements''"] by (auto simp: gp)
  have t1: "\<forall>s. get_prop d ''title'' = Inr (JStr s) \<longrightarrow> title ?r = s"
    by (auto simp: gp)
  have t2: "(\<nexists>s. get_prop d ''title'' = Inr (JStr s)) \<longrightarrow> title ?r = ''Healthcare Professional''"
    using string_or_other[of "prop_of d ''title''"] by (auto simp: gp)
  have d1: "\<forall>s. get_prop d ''description'' = Inr (JStr s) \<longrightarrow> description ?r = s"
    by (auto simp: gp)
  have d2: "(\<nexists>s. get_prop d ''description'' = Inr (JStr s)) \<longrightarrow>
              description ?r = ''Join our healthcare team.''"
    using string_or_other[of "prop_of d ''description''"] by (auto simp: gp)
  have l1: "\<forall>s. get_prop d ''location'' = Inr (JStr s) \<longrightarrow> location ?r = s"
    by (auto simp: gp)
  have l2: "(\<nexists>s. get_prop d ''location'' = Inr (JStr s)) \<longrightarrow> location ?r = ''Multiple locations''"
    using string_or_other[of "prop_of d ''location''"] by (auto simp: gp)
  have a1: "\<forall>s. get_prop d ''apply_url'' = Inr (JStr s) \<longrightarrow> apply_url ?r = s"
    by (auto simp: gp)
  have a2: "(\<nexists>s. get_prop d ''apply_url'' = Inr (JStr s)) \<longrightarrow> apply_url ?r = []"
    using string_or_other[of "prop_of d ''apply_url''"] by (auto simp: gp)
  show ?thesis
    by (intro exI[of _ ?r] conjI) (fact r e1 e2 e3 q1 q2 t1 t2 d1 d2 l1 l2 a1 a2)+
qed

theorem validateJsonStructure_fields_witness:
  "demo_job \<noteq> JNull \<and> demo_job \<noteq> JUndef
   \<and> (\<exists>r. validateJsonStructure demo_job = Inr r
          \<and> employment_type r = ''contract''
          \<and> requirements r = [''BLS'']
          \<and> title r = ''RN''
          \<and> description r = ''Join our healthcare team.''
          \<and> location r = ''Multiple locations''
          \<and> apply_url r = [])"
proof -
  have h1: "demo_job \<noteq> JNull" and h2: "demo_job \<noteq> JUndef"
    by (simp_all add: demo_job_def)
  from validateJsonStructure_fields[OF h1 h2] h1 h2 show ?thesis
    by (simp add: demo_job_def validateJsonStructure_def and_then_def)
qed

section \<open>Campaign sequence generation\<close>

text \<open>
  Claim C3. Whenever the completion request is rejected, the response extraction throws (no
  content, or empty content), or \<open>JSON.parse\<close> throws on the response,
  \<open>generateCampaignSequence\<close> propagates nothing: it returns the fixed three-step fallback
  sequence, with ids \<open>step-1\<close>, \<open>step-2\<close>, \<open>step-3\<close>, delays 0, 3 and 5, and delay units
  \<open>immediately\<close>, \<open>business days\<close>, \<open>business days\<close>.
\<close>

theorem generateCampaignSequence_fallback:
  assumes "completion = Inl e
           \<or> (\<exists>c. completion = Inr c
                  \<and> (response_content c = Inl e
                      \<or> (\<exists>r. response_content c = Inr r \<and> JSON_parse r = Inl e)))"
  shows "generateCampaignSequence JSON_parse parseInt completion prompt = fallbackSequence prompt
         \<and> map id_step (generateCampaignSequence JSON_parse parseInt completion prompt)
             = [''step-1'', ''step-2'', ''step-3'']
         \<and> map delay (generateCampaignSequence JSON_parse parseInt completion prompt)
             = [JNum 0, JNum 3, JNum 5]
         \<and> map delayUnit (generateCampaignSequence JSON_parse parseInt completion prompt)
             = [JStr ''immediately'', JStr ''business days'', JStr ''business days'']"
proof -
  from assms have "generateCampaignSequence_try JSON_parse parseInt completion = Inl e"
    by (auto simp: generateCampaignSequence_try_def and_then_def)
  then have "generateCampaignSequence JSON_parse parseInt completion prompt = fallbackSequence prompt"
    by (rule generateCampaignSequence_catch)
  then show ?thesis by (simp add: fallbackSequence_def)
qed

theorem generateCampaignSequence_fallback_witness:
  "map id_step (generateCampaignSequence literal_parser (\<lambda>v. None) (Inr (Some ''not json'')) demo_prompt)
     = [''step-1'', ''step-2'', ''step-3'']
   \<and> map delay (generateCampaignSequence literal_parser (\<lambda>v. None) (Inr (Some ''not json'')) demo_prompt)
     = [JNum 0, JNum 3, JNum 5]"
proof -
  have h: "Inr (Some ''not json'') = Inl (SyntaxError ''Unexpected token'')
           \<or> (\<exists>c. (Inr (Some ''not json'') :: error + string option) = Inr c
                  \<and> (response_content c = Inl (SyntaxError ''Unexpected token'')
                      \<or> (\<exists>r. response_content c = Inr r
                              \<and> literal_parser r = Inl (SyntaxError ''Unexpected token''))))"
    by (simp add: response_content_def literal_parser_def)
  from generateCampaignSequence_fallback[OF h, of "\<lambda>v. None" demo_prompt] show ?thesis by blast
qed

section \<open>Campaign assistant\<close>

text \<open>
  Claim C6. Whenever the completion request is rejected, the response extraction throws, or
  \<open>JSON.parse\<close> throws on the cleaned response, the \<open>AssistantResponse\<close> that
  \<open>processUserInput\<close> returns has \<open>campaignDraft\<close> equal to the \<open>currentDraft\<close> argument and
  \<open>isComplete\<close> equal to \<open>false\<close>.
\<close>

theorem processUserInput_fallback_keeps_draft:
  assumes "completion = Inl e
           \<or> (\<exists>c. completion = Inr c
                  \<and> (response_content c = Inl e
                      \<or> (\<exists>r. response_content c = Inr r
                              \<and> JSON_parse (cleanJsonResponse_campaign r) = Inl e)))"
  shows "campaignDraft (processUserInput JSON_parse completion userInput conversationHistory
                          currentDraft recentSearches) = currentDraft
         \<and> isComplete (processUserInput JSON_parse completion userInput conversationHistory
                          currentDraft recentSearches) = JBool False"
proof -
  from assms have "processUserInput_try JSON_parse completion currentDraft = Inl e"
    by (auto simp: processUserInput_try_def and_then_def)
  then have "processUserInput JSON_parse completion userInput conversationHistory currentDraft recentSearches
               = createFallbackResponse userInput currentDraft recentSearches"
    by (rule processUserInput_catch)
  then show ?thesis by (simp add: createFallbackResponse_def Let_def)
qed

theorem processUserInput_fallback_keeps_draft_witness:
  "campaignDraft (processUserInput literal_parser (Inl (Error ''Connection error.'')) ''hello'' []
                    (Map.empty(''goal'' \<mapsto> JStr ''Build a talent community'')) [''ICU nurse''])
     = Map.empty(''goal'' \<mapsto> JStr ''Build a talent community'')
   \<and> isComplete (processUserInput literal_parser (Inl (Error ''Connection error.'')) ''hello'' []
                    (Map.empty(''goal'' \<mapsto> JStr ''Build a talent community'')) [''ICU nurse''])
     = JBool False"
proof -
  have h: "(Inl (Error ''Connection error.'') :: error + string option) = Inl (Error ''Connection error.'')
           \<or> (\<exists>c. (Inl (Error ''Connection error.'') :: error + string option) = Inr c
                  \<and> (response_content c = Inl (Error ''Connection error.'')
                      \<or> (\<exists>r. response_content c = Inr r
                              \<and> literal_parser (cleanJsonResponse_campaign r)
                                  = Inl (Error ''Connection error.''))))"
    by simp
  from processUserInput_fallback_keeps_draft[OF h] show ?thesis by blast
qed

text \<open>
  Claim C7. \<open>generateCampaignFromDraft\<close> throws if and only if no campaign example is found:
  the lookup by \<open>draft.matchedExampleId\<close> (made when the id is present, that is, defined and
  not the empty string) finds nothing, and the lookup by \<open>draft.goal\<close> finds nothing. With
  an example found it returns a result whatever happens in the try block: the parsed
  campaign when the block completes, and \<open>createFallbackCampaign\<close> of the draft and the
  matched example when the request or the parsing throws.
\<close>

theorem generateCampaignFromDraft_throws_iff:
  "((\<exists>e. generateCampaignFromDraft findCampaignExampleById findCampaignExampleByGoal JSON_parse
            completion draft = Inl e)
     \<longleftrightarrow> ((\<forall>i. matchedExampleId draft = Some i \<and> i \<noteq> [] \<longrightarrow> findCampaignExampleById i = None)
          \<and> findCampaignExampleByGoal (goal draft) = None))
   \<and> (\<forall>ex. find_matching_example findCampaignExampleById findCampaignExampleByGoal draft = Some ex \<longrightarrow>
          (\<forall>r. generateCampaignFromDraft_try JSON_parse completion = Inr r \<longrightarrow>
               generateCampaignFromDraft findCampaignExampleById findCampaignExampleByGoal JSON_parse
                 completion draft = Inr r)
          \<and> (\<forall>e. generateCampaignFromDraft_try JSON_parse completion = Inl e \<longrightarrow>
               generateCampaignFromDraft findCampaignExampleById findCampaignExampleByGoal JSON_parse
                 completion draft = Inr (createFallbackCampaign draft ex)))"
proof -
  have none_iff:
    "find_matching_example findCampaignExampleById findCampaignExampleByGoal draft = None
       \<longleftrightarrow> ((\<forall>i. matchedExampleId draft = Some i \<and> i \<noteq> [] \<longrightarrow> findCampaignExampleById i = None)
            \<and> findCampaignExampleByGoal (goal draft) = None)"
    by (auto simp: find_matching_example_def Let_def split: option.splits)
  have throws_iff:
    "(\<exists>e. generateCampaignFromDraft findCampaignExampleById findCampaignExampleByGoal JSON_parse
            completion draft = Inl e)
       \<longleftrightarrow> find_matching_example findCampaignExampleById findCampaignExampleByGoal draft = None"
    by (auto simp: generateCampaignFromDraft_def split: option.splits sum.splits)
  have rest:
    "\<forall>ex. find_matching_example findCampaignExampleById findCampaignExampleByGoal draft = Some ex \<longrightarrow>
          (\<forall>r. generateCampaignFromDraft_try JSON_parse completion = Inr r \<longrightarrow>
               generateCampaignFromDraft findCampaignExampleById findCampaignExampleByGoal JSON_parse
                 completion draft = Inr r)
          \<and> (\<forall>e. generateCampaignFromDraft_try JSON_parse completion = Inl e \<longrightarrow>
               generateCampaignFromDraft findCampaignExampleById findCampaignExampleByGoal JSON_parse
                 completion draft = Inr (createFallbackCampaign draft ex))"
    by (auto simp: generateCampaignFromDraft_def)
  from none_iff throws_iff rest show ?thesis by simp
qed

theorem generateCampaignFromDraft_throws_iff_witness:
  "generateCampaignFromDraft demo_by_id demo_by_goal literal_parser (Inr None) demo_draft
     = Inr (createFallbackCampaign demo_draft demo_example)
   \<and> generateCampaignFromDraft demo_by_id demo_by_goal literal_parser (Inr None)
        (demo_draft\<lparr>matchedExampleId := None\<rparr>)
     = Inl (Error ''No matching campaign example found. Cannot proceed without a guideline.'')"
proof -
  have found: "find_matching_example demo_by_id demo_by_goal demo_draft = Some demo_example"
    by (simp add: find_matching_example_def demo_by_id_def demo_draft_def)
  have failed: "generateCampaignFromDraft_try literal_parser (Inr None)
                  = Inl (Error ''No response from OpenAI'')"
    by (simp add: generateCampaignFromDraft_try_def and_then_def response_content_def)
  have no_match:
    "(\<forall>i. matchedExampleId (demo_draft\<lparr>matchedExampleId := None\<rparr>) = Some i \<and> i \<noteq> []
          \<longrightarrow> demo_by_id i = None)
     \<and> demo_by_goal (goal (demo_draft\<lparr>matchedExampleId := None\<rparr>)) = None"
    by (simp add: demo_by_goal_def)
  from generateCampaignFromDraft_throws_iff[of demo_by_id demo_by_goal literal_parser "Inr None" demo_draft]
    found failed
  have first: "generateCampaignFromDraft demo_by_id demo_by_goal literal_parser (Inr None) demo_draft
                 = Inr (createFallbackCampaign demo_draft demo_example)"
    by blast
  have iff: "(\<exists>e. generateCampaignFromDraft demo_by_id demo_by_goal literal_parser (Inr None)
               (demo_draft\<lparr>matchedExampleId := None\<rparr>) = Inl e)
        \<longleftrightarrow> ((\<forall>i. matchedExampleId (demo_draft\<lparr>matchedExampleId := None\<rparr>) = Some i \<and> i \<noteq> []
                  \<longrightarrow> demo_by_id i = None)
             \<and> demo_by_goal (goal (demo_draft\<lparr>matchedExampleId := None\<rparr>)) = None)"
    by (rule conjunct1[OF generateCampaignFromDraft_throws_iff])
  have "\<exists>e. generateCampaignFromDraft demo_by_id demo_by_goal literal_parser (Inr None)
               (demo_draft\<lparr>matchedExampleId := None\<rparr>) = Inl e"
    by (rule iffD2[OF iff no_match])
  then obtain e where "generateCampaignFromDraft demo_by_id demo_by_goal literal_parser (Inr None)
                    (demo_draft\<lparr>matchedExampleId := None\<rparr>) = Inl e" ..
  then have second: "generateCampaignFromDraft demo_by_id demo_by_goal literal_parser (Inr None)
                       (demo_draft\<lparr>matchedExampleId := None\<rparr>)
                     = Inl (Error ''No matching campaign example found. Cannot proceed without a guideline.'')"
    by (auto simp: generateCampaignFromDraft_def split: option.splits sum.splits)
  from first second show ?thesis by simp
qed

section \<open>The two cleanJsonResponse functions\<close>

text \<open>
  Claim C2, as stated, fails: the two functions named \<open>cleanJsonResponse\<close> are different
  functions. On \<open>ok {} ok\<close> the one of the campaign assistant finds no fence and returns the
  trimmed text, while the shared one cuts the text down to \<open>{}\<close>.
\<close>

theorem cleanJsonResponse_differ:
  "cleanJsonResponse ''ok {} ok'' \<noteq> cleanJsonResponse_campaign ''ok {} ok''"
proof -
  have a: "cleanJsonResponse ''ok {} ok'' = ''{}''" by code_simp
  have b: "cleanJsonResponse_campaign ''ok {} ok'' = ''ok {} ok''" by code_simp
  show ?thesis unfolding a b by simp
qed

text \<open>
  Claim C2, amended. The two functions return the same string on every input for which the
  result of the campaign assistant's function either starts with \<open>{\<close> and ends with \<open>}\<close>,
  or holds neither \<open>{\<close> nor \<open>}\<close> and does not end with a backtick. (Elsewhere they may
  differ: the shared function also removes a closing fence that is followed by white
  space, and cuts the text down to what lies between the first \<open>{\<close> and the last \<open>}\<close>.)
\<close>

theorem cleanJsonResponse_agree:
  assumes "(prefix ''{'' (cleanJsonResponse_campaign s) \<and> suffix ''}'' (cleanJsonResponse_campaign s))
           \<or> (CHR ''{'' \<notin> set (cleanJsonResponse_campaign s)
               \<and> CHR ''}'' \<notin> set (cleanJsonResponse_campaign s)
               \<and> \<not> suffix ''`'' (cleanJsonResponse_campaign s))"
  shows "cleanJsonResponse s = cleanJsonResponse_campaign s"
proof -
  let ?t = "cleanJsonResponse_campaign s"
  have tr: "trim ?t = ?t" unfolding campaign_unfold by (rule trim_idem)
  from assms show ?thesis
  proof
    assume "prefix ''{'' ?t \<and> suffix ''}'' ?t"
    then obtain m where m: "?t = CHR ''{'' # m @ ''}''" using braced_form by blast
    then have "last ?t = CHR ''}''" by simp
    then have "?t = [] \<or> last ?t \<noteq> CHR ''`''" by simp
    from shared_via_campaign[OF this] have "cleanJsonResponse s = isolate ?t" .
    also have "\<dots> = ?t" unfolding m isolate_def by (simp only: braced_fixed)
    finally show ?thesis .
  next
    assume a: "CHR ''{'' \<notin> set ?t \<and> CHR ''}'' \<notin> set ?t \<and> \<not> suffix ''`'' ?t"
    have "?t = [] \<or> last ?t \<noteq> CHR ''`''"
    proof (cases "?t = []")
      case True
      then show ?thesis ..
    next
      case False
      have "last ?t \<noteq> CHR ''`''"
      proof
        assume "last ?t = CHR ''`''"
        with False have "?t = butlast ?t @ ''`''" by (metis append_butlast_last_id)
        then have "suffix ''`'' ?t" by (rule suffixI)
        with a show False by simp
      qed
      then show ?thesis ..
    qed
    from shared_via_campaign[OF this] have "cleanJsonResponse s = isolate ?t" .
    also from a tr have "\<dots> = ?t" by (intro isolate_plain) simp_all
    finally show ?thesis .
  qed
qed

theorem cleanJsonResponse_agree_witness:
  "prefix ''{'' (cleanJsonResponse_campaign ''```json {\"a\": 1} ```'')
   \<and> suffix ''}'' (cleanJsonResponse_campaign ''```json {\"a\": 1} ```'')
   \<and> cleanJsonResponse ''```json {\"a\": 1} ```'' = ''{\"a\": 1}''
   \<and> cleanJsonResponse_campaign ''```json {\"a\": 1} ```'' = ''{\"a\": 1}''"
proof -
  have c: "cleanJsonResponse_campaign ''```json {\"a\": 1} ```'' = ''{\"a\": 1}''" by code_simp
  have p: "prefix ''{'' (cleanJsonResponse_campaign ''```json {\"a\": 1} ```'')"
    unfolding c by simp
  have s: "suffix ''}'' (cleanJsonResponse_campaign ''```json {\"a\": 1} ```'')"
    unfolding c by (simp add: suffix_to_prefix)
  from p s have "(prefix ''{'' (cleanJsonResponse_campaign ''```json {\"a\": 1} ```'')
        \<and> suffix ''}'' (cleanJsonResponse_campaign ''```json {\"a\": 1} ```''))
      \<or> (CHR ''{'' \<notin> set (cleanJsonResponse_campaign ''```json {\"a\": 1} ```'')
        \<and> CHR ''}'' \<notin> set (cleanJsonResponse_campaign ''```json {\"a\": 1} ```'')
        \<and> \<not> suffix ''`'' (cleanJsonResponse_campaign ''```json {\"a\": 1} ```''))"
    by (rule disjI1[OF conjI])
  from cleanJsonResponse_agree[OF this] c
  have "cleanJsonResponse ''```json {\"a\": 1} ```'' = ''{\"a\": 1}''" by (simp only:)
  with p s c show ?thesis by (intro conjI)
qed

text \<open>
  Claim C8, as stated, fails: the shared \<open>cleanJsonResponse\<close> is not idempotent. On six
  backticks followed by \<open>json\<close> the first pass removes the three leading backticks only
  (the \<open>```json\<close> pattern does not match at the start, the \<open>```\<close> pattern does) and returns
  \<open>```json\<close>; a second pass removes that fence and returns the empty string.
\<close>

theorem cleanJsonResponse_not_idempotent:
  "cleanJsonResponse (cleanJsonResponse ''``````json'') \<noteq> cleanJsonResponse ''``````json''"
proof -
  have a: "cleanJsonResponse ''``````json'' = ''```json''" by code_simp
  have b: "cleanJsonResponse ''```json'' = []" by code_simp
  show ?thesis unfolding a b by simp
qed

text \<open>
  Claim C8, amended. \<open>cleanJsonResponse (cleanJsonResponse s) = cleanJsonResponse s\<close> holds
  exactly for the inputs \<open>s\<close> whose cleaned text neither starts nor ends with three
  backticks. Without such a fence a second pass finds nothing to remove, and the cut to the
  outermost braces, the two global replacements and \<open>trim\<close> leave their own results
  unchanged; with one, the second pass removes it and returns a shorter string.
\<close>

theorem cleanJsonResponse_idempotent:
  "cleanJsonResponse (cleanJsonResponse s) = cleanJsonResponse s
     \<longleftrightarrow> \<not> prefix ''```'' (cleanJsonResponse s) \<and> \<not> suffix ''```'' (cleanJsonResponse s)"
proof
  assume "cleanJsonResponse (cleanJsonResponse s) = cleanJsonResponse s"
  with fenced_not_fixed[of "cleanJsonResponse s"]
  show "\<not> prefix ''```'' (cleanJsonResponse s) \<and> \<not> suffix ''```'' (cleanJsonResponse s)"
    by blast
next
  assume "\<not> prefix ''```'' (cleanJsonResponse s) \<and> \<not> suffix ''```'' (cleanJsonResponse s)"
  then show "cleanJsonResponse (cleanJsonResponse s) = cleanJsonResponse s"
    using unfenced_fixed by blast
qed

theorem cleanJsonResponse_idempotent_witness:
  "\<not> prefix ''```'' (cleanJsonResponse ''Sure: {\"a\": 1} ok'')
   \<and> \<not> suffix ''```'' (cleanJsonResponse ''Sure: {\"a\": 1} ok'')
   \<and> cleanJsonResponse (cleanJsonResponse ''Sure: {\"a\": 1} ok'')
       = cleanJsonResponse ''Sure: {\"a\": 1} ok''"
proof -
  have c: "cleanJsonResponse ''Sure: {\"a\": 1} ok'' = ''{\"a\": 1}''" by code_simp
  have p: "\<not> prefix ''```'' (cleanJsonResponse ''Sure: {\"a\": 1} ok'')"
    unfolding c by simp
  have s: "\<not> suffix ''```'' (cleanJsonResponse ''Sure: {\"a\": 1} ok'')"
    unfolding c by (simp add: suffix_to_prefix)
  from p s have "\<not> prefix ''```'' (cleanJsonResponse ''Sure: {\"a\": 1} ok'')
      \<and> \<not> suffix ''```'' (cleanJsonResponse ''Sure: {\"a\": 1} ok'')" by (rule conjI)
  with cleanJsonResponse_idempotent[of "''Sure: {\"a\": 1} ok''"]
  have "cleanJsonResponse (cleanJsonResponse ''Sure: {\"a\": 1} ok'')
          = cleanJsonResponse ''Sure: {\"a\": 1} ok''" by (rule iffD2)
  with p s show ?thesis by (intro conjI)
qed

section \<open>sanitizeJsonString\<close>

text \<open>
  Claim C10 does not hold of the code. The last replacement of \<open>sanitizeJsonString\<close> is
  written with the regular expression \<open>\b\<close>, which is the word boundary and not the
  backspace character: it inserts a backslash and a \<open>b\<close> at every word boundary. For the
  input \<open>a\<close> the function returns \<open>\ba\b\<close>; between double quotes this is a JSON string
  literal, but it denotes backspace, \<open>a\<close>, backspace, not \<open>a\<close>.
\<close>

theorem sanitizeJsonString_word_boundary:
  "sanitizeJsonString ''a'' = [CHR 0x5C, CHR ''b'', CHR ''a'', CHR 0x5C, CHR ''b'']
   \<and> json_string_literal (dquote @ sanitizeJsonString ''a'' @ dquote)
       = Some [CHR 0x08, CHR ''a'', CHR 0x08]"
proof -
  have a: "sanitizeJsonString ''a'' = [CHR 0x5C, CHR ''b'', CHR ''a'', CHR 0x5C, CHR ''b'']"
    by code_simp
  have b: "json_string_literal (dquote @ [CHR 0x5C, CHR ''b'', CHR ''a'', CHR 0x5C, CHR ''b''] @ dquote)
             = Some [CHR 0x08, CHR ''a'', CHR 0x08]"
    by code_simp
  from a b show ?thesis by (simp only:)
qed

theorem sanitizeJsonString_no_roundtrip:
  "json_string_literal (dquote @ sanitizeJsonString ''a'' @ dquote) \<noteq> Some ''a''"
proof -
  from sanitizeJsonString_word_boundary
  have "json_string_literal (dquote @ sanitizeJsonString ''a'' @ dquote)
          = Some [CHR 0x08, CHR ''a'', CHR 0x08]" by (rule conjunct2)
  then show ?thesis by simp
qed

end
